theory Spec2Isabelle
  imports Main "HOL-Library.Multiset"
begin

section \<open>Sudoku board and depth-first search (a5.py)\<close>

text \<open>
  The development has two layers.

  \<^item> The value layer models a \<^verbatim>\<open>Board\<close> whose nested lists are owned by the board alone
    (what \<^verbatim>\<open>Board()\<close> and \<^verbatim>\<open>copy.deepcopy\<close> build): \<^verbatim>\<open>rows\<close> is a list of lists of
    cells, a cell is an assigned number or the list of numbers still possible.
    In-place mutation becomes a function returning the new board; every \<^verbatim>\<open>IndexError\<close>
    and \<^verbatim>\<open>TypeError\<close> the Python raises is a branch of the model.
  \<^item> The store layer (further down) keeps every Python object in an explicit store
    and is used where a property is about sharing between a board and its copy.

  Indices are natural numbers: Python's negative indices are outside the modelled
  inputs. Printing is not modelled.
\<close>

subsection \<open>Data\<close>

text \<open>
  The exceptions that can leave the modelled code. \<open>OutOfFuel\<close> is no Python exception:
  it marks a run of the store layer's search that was cut off by its step budget.
\<close>

datatype error = IndexError | TypeError | AttributeError | OutOfFuel

datatype cell = is_Val: Val int | is_Cands: Cands (the_cands: "int list")

record board =
  size_attr :: nat
  num_nums_placed :: int
  rows :: "cell list list"

text \<open>\<^verbatim>\<open>Board.__init__\<close>: size 9, nothing placed, every cell \<^verbatim>\<open>list(range(1, 10))\<close>.\<close>

definition Board :: board where
  "Board = \<lparr> size_attr = 9, num_nums_placed = 0,
             rows = map (\<lambda>_. map (\<lambda>_. Cands (map int [1..<10])) [0..<9]) [0..<9] \<rparr>"

subsection \<open>Indexing with Python's IndexError\<close>

definition get_cell :: "cell list list \<Rightarrow> nat \<Rightarrow> nat \<Rightarrow> error + cell" where
  "get_cell rs i j =
     (if i < length rs then
        (if j < length (rs ! i) then Inr (rs ! i ! j) else Inl IndexError)
      else Inl IndexError)"

definition set_cell :: "cell list list \<Rightarrow> nat \<Rightarrow> nat \<Rightarrow> cell \<Rightarrow> error + cell list list" where
  "set_cell rs i j x =
     (if i < length rs then
        (if j < length (rs ! i) then Inr (rs[i := (rs ! i)[j := x]]) else Inl IndexError)
      else Inl IndexError)"

subsection \<open>remove_if_exists\<close>

text \<open>
  \<^verbatim>\<open>if isinstance(lst, list) and elem in lst: lst.remove(elem)\<close>; \<^verbatim>\<open>list.remove\<close>
  deletes the first occurrence only.
\<close>

fun remove_if_exists :: "cell \<Rightarrow> int \<Rightarrow> cell" where
  "remove_if_exists (Cands lst) elem =
     (if elem \<in> set lst then Cands (remove1 elem lst) else Cands lst)"
| "remove_if_exists (Val n) elem = Val n"

text \<open>\<^verbatim>\<open>remove_if_exists(self.rows[i][j], elem)\<close>: the list found at the cell is changed in place.\<close>

definition remove_at :: "cell list list \<Rightarrow> nat \<Rightarrow> nat \<Rightarrow> int \<Rightarrow> error + cell list list" where
  "remove_at rs i j elem =
     (case get_cell rs i j of
        Inl e \<Rightarrow> Inl e
      | Inr x \<Rightarrow> set_cell rs i j (remove_if_exists x elem))"

text \<open>A run of such calls, one per coordinate pair, in order.\<close>

fun remove_loop :: "cell list list \<Rightarrow> (nat \<times> nat) list \<Rightarrow> int \<Rightarrow> error + cell list list" where
  "remove_loop rs [] elem = Inr rs"
| "remove_loop rs ((i, j) # ps) elem =
     (case remove_at rs i j elem of
        Inl e \<Rightarrow> Inl e
      | Inr rs' \<Rightarrow> remove_loop rs' ps elem)"

subsection \<open>Board methods\<close>

definition subgrids :: "nat list list" where
  "subgrids = [[0, 1, 2], [3, 4, 5], [6, 7, 8]]"

text \<open>\<^verbatim>\<open>[(r, c) for c in subgrids[col // 3] for r in subgrids[row // 3]]\<close>\<close>

definition subgrid_coordinates :: "nat \<Rightarrow> nat \<Rightarrow> error + (nat \<times> nat) list" where
  "subgrid_coordinates row col =
     (if col div 3 < length subgrids \<and> row div 3 < length subgrids then
        Inr (concat (map (\<lambda>c. map (\<lambda>r. (r, c)) (subgrids ! (row div 3)))
                         (subgrids ! (col div 3))))
      else Inl IndexError)"

text \<open>
  \<^verbatim>\<open>find_most_constrained_cell\<close>: the two nested \<^verbatim>\<open>range(self.size)\<close> loops visit the
  coordinate pairs in row-major order; the loop state is \<^verbatim>\<open>(mini, row, col)\<close>.
\<close>

fun mcc_scan :: "cell list list \<Rightarrow> (nat \<times> nat) list \<Rightarrow> nat \<times> nat \<times> nat \<Rightarrow> error + nat \<times> nat \<times> nat" where
  "mcc_scan rs [] s = Inr s"
| "mcc_scan rs ((i, j) # ps) (mini, row, col) =
     (case get_cell rs i j of
        Inl e \<Rightarrow> Inl e
      | Inr (Cands xs) \<Rightarrow>
          (if length xs < mini then mcc_scan rs ps (length xs, i, j)
           else mcc_scan rs ps (mini, row, col))
      | Inr (Val n) \<Rightarrow> mcc_scan rs ps (mini, row, col))"

definition find_most_constrained_cell :: "board \<Rightarrow> error + nat \<times> nat" where
  "find_most_constrained_cell b =
     (case mcc_scan (rows b) (List.product [0..<size_attr b] [0..<size_attr b]) (size_attr b, 0, 0) of
        Inl e \<Rightarrow> Inl e
      | Inr (mini, row, col) \<Rightarrow> Inr (row, col))"

text \<open>\<^verbatim>\<open>not cell\<close>: an empty list, or the number 0.\<close>

fun falsy :: "cell \<Rightarrow> bool" where
  "falsy (Val n) = (n = 0)"
| "falsy (Cands xs) = (xs = [])"

definition failure_test :: "board \<Rightarrow> bool" where
  "failure_test b = list_ex (list_ex falsy) (rows b)"

definition goal_test :: "board \<Rightarrow> bool" where
  "goal_test b = (num_nums_placed b = int (size_attr b * size_attr b))"

definition update :: "board \<Rightarrow> nat \<Rightarrow> nat \<Rightarrow> int \<Rightarrow> error + board" where
  "update b row column assignment =
     (case set_cell (rows b) row column (Val assignment) of
        Inl e \<Rightarrow> Inl e
      | Inr rs1 \<Rightarrow>
     (case remove_loop rs1 (concat (map (\<lambda>i. [(row, i), (i, column)]) [0..<size_attr b])) assignment of
        Inl e \<Rightarrow> Inl e
      | Inr rs2 \<Rightarrow>
     (case subgrid_coordinates row column of
        Inl e \<Rightarrow> Inl e
      | Inr coords \<Rightarrow>
     (case remove_loop rs2 coords assignment of
        Inl e \<Rightarrow> Inl e
      | Inr rs3 \<Rightarrow> Inr (b\<lparr> num_nums_placed := num_nums_placed b + 1, rows := rs3 \<rparr>)))))"

text \<open>A sequence of \<^verbatim>\<open>update\<close> calls, as the driver's \<^verbatim>\<open>for move in moves: b.update(*move)\<close>.\<close>

fun updates :: "board \<Rightarrow> (nat \<times> nat \<times> int) list \<Rightarrow> error + board" where
  "updates b [] = Inr b"
| "updates b ((r, c, v) # ms) =
     (case update b r c v of Inl e \<Rightarrow> Inl e | Inr b' \<Rightarrow> updates b' ms)"

subsection \<open>The frontier\<close>

text \<open>
  Modelled from the spec: the \<^verbatim>\<open>Stack\<close> class is imported from \<^verbatim>\<open>stack_and_queue\<close>, which
  is not among the sources. The spec asks for "a LIFO frontier container supporting
  push, pop-most-recent, and empty-check"; the model is a list whose head is the item
  pushed last. \<^verbatim>\<open>Stack(items)\<close> pushes the items in order.
\<close>

definition push :: "'a \<Rightarrow> 'a list \<Rightarrow> 'a list" where
  "push x stack = x # stack"

fun pop :: "'a list \<Rightarrow> ('a \<times> 'a list) option" where
  "pop [] = None"
| "pop (x # stack) = Some (x, stack)"

definition is_empty :: "'a list \<Rightarrow> bool" where
  "is_empty stack \<longleftrightarrow> stack = []"

definition Stack :: "'a list \<Rightarrow> 'a list" where
  "Stack items = fold push items []"

subsection \<open>DFS\<close>

text \<open>
  In the value layer a board is a value, and its deep copy is an equal value; what
  \<^verbatim>\<open>copy.deepcopy\<close> does to the store is the subject of the store layer.
\<close>

definition deepcopy :: "board \<Rightarrow> board" where
  "deepcopy b = b"

text \<open>
  The loop \<^verbatim>\<open>for pos in possibilities\<close>: copy, assign, push. The diagnostic counter
  \<^verbatim>\<open>count\<close> is only printed and is left out.
\<close>

fun for_possibilities :: "board \<Rightarrow> nat \<Rightarrow> nat \<Rightarrow> int list \<Rightarrow> board list \<Rightarrow> error + board list" where
  "for_possibilities cur row col [] stack = Inr stack"
| "for_possibilities cur row col (pos # rest) stack =
     (case update (deepcopy cur) row col pos of
        Inl e \<Rightarrow> Inl e
      | Inr cpy \<Rightarrow> for_possibilities cur row col rest (push cpy stack))"

text \<open>
  One pass through the body of the \<^verbatim>\<open>while\<close> loop, after the pop: return the board,
  go on with a new stack, or raise. The popped board \<^verbatim>\<open>curr\<close> is written \<open>cur\<close>. Iterating over an assigned number
  (\<^verbatim>\<open>for pos in 5\<close>) is Python's TypeError.
\<close>

datatype step = Return board | Next "board list" | Raise error

definition DFS_body :: "board \<Rightarrow> board list \<Rightarrow> step" where
  "DFS_body cur stack =
     (if goal_test cur then Return cur
      else if \<not> failure_test cur then
        (case find_most_constrained_cell cur of
           Inl e \<Rightarrow> Raise e
         | Inr (row, col) \<Rightarrow>
            (case get_cell (rows cur) row col of
               Inl e \<Rightarrow> Raise e
             | Inr (Val n) \<Rightarrow> Raise TypeError
             | Inr (Cands possibilities) \<Rightarrow>
                (case for_possibilities cur row col possibilities stack of
                   Inl e \<Rightarrow> Raise e
                 | Inr stack' \<Rightarrow> Next stack')))
      else Next stack)"

text \<open>
  The \<^verbatim>\<open>while not stack.is_empty()\<close> loop. \<^verbatim>\<open>Inr None\<close> is Python's \<^verbatim>\<open>return None\<close>,
  \<^verbatim>\<open>Inr (Some b)\<close> is \<^verbatim>\<open>return curr\<close>, \<^verbatim>\<open>Inl e\<close> an exception that leaves \<^verbatim>\<open>DFS\<close>.
\<close>

function DFS_loop :: "board list \<Rightarrow> error + board option" where
  "DFS_loop stack =
     (if is_empty stack then Inr None
      else
        (case pop stack of
           None \<Rightarrow> Inl IndexError
         | Some (cur, stack') \<Rightarrow>
            (case DFS_body cur stack' of
               Return b \<Rightarrow> Inr (Some b)
             | Raise e \<Rightarrow> Inl e
             | Next stack'' \<Rightarrow> DFS_loop stack'')))"
  by pat_completeness auto

definition DFS :: "board \<Rightarrow> error + board option" where
  "DFS state = DFS_loop (Stack [state])"

text \<open>The number of cells that hold a list: the search's measure of progress.\<close>

definition ncands :: "board \<Rightarrow> nat" where
  "ncands b = length (filter is_Cands (concat (rows b)))"

section \<open>The store layer\<close>

text \<open>
  Here every Python object lives at an address of a store, and a board is a graph of
  objects: the \<^verbatim>\<open>Board\<close> instance refers to its \<^verbatim>\<open>rows\<close> list, that list to the row
  lists, a row list holds numbers and references to lists of numbers. Two cells, two
  rows or two boards may share an object; \<^verbatim>\<open>update\<close> changes objects in place and
  \<^verbatim>\<open>copy.deepcopy\<close> allocates new ones. The store is a list of objects, an address is an
  index into it, and allocation appends. Objects are never freed.

  The store is typed by role (board, rows list, row list, list of numbers); a reference
  that leads to an object of another role is outside the modelled stores and is
  answered with an error. An operation returns its outcome together with the store it
  leaves, also when it raises.
\<close>

type_synonym addr = nat

datatype hcell = HVal int | HRef addr

datatype obj =
    OBoard nat int addr
  | ORows "addr list"
  | ORow "hcell list"
  | OCands "int list"

type_synonym store = "obj list"

definition h_lookup :: "store \<Rightarrow> addr \<Rightarrow> obj option" where
  "h_lookup h a = (if a < length h then Some (h ! a) else None)"

text \<open>\<^verbatim>\<open>self.rows\<close>, \<^verbatim>\<open>self.rows[i]\<close> (the row list's address and contents), \<^verbatim>\<open>self.rows[i][j]\<close>.\<close>

definition h_rows :: "store \<Rightarrow> addr \<Rightarrow> error + addr list" where
  "h_rows h b =
     (case h_lookup h b of
        Some (OBoard sz n ra) \<Rightarrow>
          (case h_lookup h ra of Some (ORows ras) \<Rightarrow> Inr ras | _ \<Rightarrow> Inl TypeError)
      | _ \<Rightarrow> Inl AttributeError)"

definition h_row :: "store \<Rightarrow> addr \<Rightarrow> nat \<Rightarrow> error + addr \<times> hcell list" where
  "h_row h b i =
     (case h_rows h b of
        Inl e \<Rightarrow> Inl e
      | Inr ras \<Rightarrow>
          if i < length ras then
            (case h_lookup h (ras ! i) of
               Some (ORow cells) \<Rightarrow> Inr (ras ! i, cells)
             | _ \<Rightarrow> Inl TypeError)
          else Inl IndexError)"

definition h_get_cell :: "store \<Rightarrow> addr \<Rightarrow> nat \<Rightarrow> nat \<Rightarrow> error + hcell" where
  "h_get_cell h b i j =
     (case h_row h b i of
        Inl e \<Rightarrow> Inl e
      | Inr (rowa, cells) \<Rightarrow> if j < length cells then Inr (cells ! j) else Inl IndexError)"

text \<open>\<^verbatim>\<open>remove_if_exists\<close> on the object a cell holds: the list is changed where it lives.\<close>

definition h_remove_if_exists :: "store \<Rightarrow> hcell \<Rightarrow> int \<Rightarrow> (error + unit) \<times> store" where
  "h_remove_if_exists h lst elem =
     (case lst of
        HVal n \<Rightarrow> (Inr (), h)
      | HRef a \<Rightarrow>
          (case h_lookup h a of
             Some (OCands xs) \<Rightarrow>
               (Inr (), if elem \<in> set xs then h[a := OCands (remove1 elem xs)] else h)
           | _ \<Rightarrow> (Inl TypeError, h)))"

definition h_remove_at :: "store \<Rightarrow> addr \<Rightarrow> nat \<Rightarrow> nat \<Rightarrow> int \<Rightarrow> (error + unit) \<times> store" where
  "h_remove_at h b i j elem =
     (case h_get_cell h b i j of
        Inl e \<Rightarrow> (Inl e, h)
      | Inr x \<Rightarrow> h_remove_if_exists h x elem)"

fun h_remove_loop :: "store \<Rightarrow> addr \<Rightarrow> (nat \<times> nat) list \<Rightarrow> int \<Rightarrow> (error + unit) \<times> store" where
  "h_remove_loop h b [] elem = (Inr (), h)"
| "h_remove_loop h b ((i, j) # ps) elem =
     (case h_remove_at h b i j elem of
        (Inl e, h') \<Rightarrow> (Inl e, h')
      | (Inr u, h') \<Rightarrow> h_remove_loop h' b ps elem)"

text \<open>\<^verbatim>\<open>Board.update\<close> on the board at address \<open>b\<close>.\<close>

definition h_update :: "store \<Rightarrow> addr \<Rightarrow> nat \<Rightarrow> nat \<Rightarrow> int \<Rightarrow> (error + unit) \<times> store" where
  "h_update h b row column assignment =
     (case h_row h b row of
        Inl e \<Rightarrow> (Inl e, h)
      | Inr (rowa, cells) \<Rightarrow>
          if column < length cells then
            (let h1 = h[rowa := ORow (cells[column := HVal assignment])] in
             (case h_lookup h1 b of
                Some (OBoard sz n ra) \<Rightarrow>
                  (let h2 = h1[b := OBoard sz (n + 1) ra] in
                   (case h_remove_loop h2 b
                           (concat (map (\<lambda>i. [(row, i), (i, column)]) [0..<sz])) assignment of
                      (Inl e, h3) \<Rightarrow> (Inl e, h3)
                    | (Inr u, h3) \<Rightarrow>
                        (case subgrid_coordinates row column of
                           Inl e \<Rightarrow> (Inl e, h3)
                         | Inr coords \<Rightarrow> h_remove_loop h3 b coords assignment)))
              | _ \<Rightarrow> (Inl AttributeError, h1)))
          else (Inl IndexError, h))"

text \<open>
  A sequence of \<^verbatim>\<open>update\<close> calls on the board at \<open>b\<close>, each call made whatever the
  outcome of the calls before it.
\<close>

fun h_updates :: "store \<Rightarrow> addr \<Rightarrow> (nat \<times> nat \<times> int) list \<Rightarrow> store" where
  "h_updates h b [] = h"
| "h_updates h b ((r, c, v) # ms) = h_updates (snd (h_update h b r c v)) b ms"

subsection \<open>copy.deepcopy\<close>

text \<open>
  \<^verbatim>\<open>copy.deepcopy\<close> keeps a memo from the objects it has copied to their copies, so an
  object reached twice is copied once. A list is copied by allocating an empty list,
  entering it in the memo and appending the copies of the items; numbers are copied as
  themselves. Nothing in a typed store refers to a \<^verbatim>\<open>Board\<close> instance, so the memo
  entry of the board is never looked up and the new instance is allocated last.
\<close>

type_synonym memo = "addr \<Rightarrow> addr option"

definition h_copy_cands :: "store \<Rightarrow> memo \<Rightarrow> addr \<Rightarrow> (error + addr) \<times> memo \<times> store" where
  "h_copy_cands h m a =
     (case m a of
        Some a' \<Rightarrow> (Inr a', m, h)
      | None \<Rightarrow>
          (case h_lookup h a of
             Some (OCands xs) \<Rightarrow> (Inr (length h), m(a \<mapsto> length h), h @ [OCands xs])
           | _ \<Rightarrow> (Inl TypeError, m, h)))"

definition h_copy_cell :: "store \<Rightarrow> memo \<Rightarrow> hcell \<Rightarrow> (error + hcell) \<times> memo \<times> store" where
  "h_copy_cell h m x =
     (case x of
        HVal n \<Rightarrow> (Inr (HVal n), m, h)
      | HRef a \<Rightarrow>
          (case h_copy_cands h m a of
             (Inl e, m', h') \<Rightarrow> (Inl e, m', h')
           | (Inr a', m', h') \<Rightarrow> (Inr (HRef a'), m', h')))"

text \<open>\<^verbatim>\<open>for a in x: y.append(deepcopy(a, memo))\<close> for a row list \<open>x\<close>, \<open>y\<close> the new list.\<close>

fun h_copy_cells :: "store \<Rightarrow> memo \<Rightarrow> addr \<Rightarrow> hcell list \<Rightarrow> (error + unit) \<times> memo \<times> store" where
  "h_copy_cells h m y [] = (Inr (), m, h)"
| "h_copy_cells h m y (x # xs) =
     (case h_copy_cell h m x of
        (Inl e, m', h') \<Rightarrow> (Inl e, m', h')
      | (Inr x', m', h') \<Rightarrow>
          (case h_lookup h' y of
             Some (ORow ys) \<Rightarrow> h_copy_cells (h'[y := ORow (ys @ [x'])]) m' y xs
           | _ \<Rightarrow> (Inl TypeError, m', h')))"

definition h_copy_row :: "store \<Rightarrow> memo \<Rightarrow> addr \<Rightarrow> (error + addr) \<times> memo \<times> store" where
  "h_copy_row h m a =
     (case m a of
        Some a' \<Rightarrow> (Inr a', m, h)
      | None \<Rightarrow>
          (case h_lookup h a of
             Some (ORow cells) \<Rightarrow>
               (case h_copy_cells (h @ [ORow []]) (m(a \<mapsto> length h)) (length h) cells of
                  (Inl e, m', h') \<Rightarrow> (Inl e, m', h')
                | (Inr u, m', h') \<Rightarrow> (Inr (length h), m', h'))
           | _ \<Rightarrow> (Inl TypeError, m, h)))"

text \<open>The same loop for the \<^verbatim>\<open>rows\<close> list.\<close>

fun h_copy_row_list :: "store \<Rightarrow> memo \<Rightarrow> addr \<Rightarrow> addr list \<Rightarrow> (error + unit) \<times> memo \<times> store" where
  "h_copy_row_list h m y [] = (Inr (), m, h)"
| "h_copy_row_list h m y (a # as) =
     (case h_copy_row h m a of
        (Inl e, m', h') \<Rightarrow> (Inl e, m', h')
      | (Inr a', m', h') \<Rightarrow>
          (case h_lookup h' y of
             Some (ORows ys) \<Rightarrow> h_copy_row_list (h'[y := ORows (ys @ [a'])]) m' y as
           | _ \<Rightarrow> (Inl TypeError, m', h')))"

definition h_copy_rows :: "store \<Rightarrow> memo \<Rightarrow> addr \<Rightarrow> (error + addr) \<times> memo \<times> store" where
  "h_copy_rows h m a =
     (case m a of
        Some a' \<Rightarrow> (Inr a', m, h)
      | None \<Rightarrow>
          (case h_lookup h a of
             Some (ORows ras) \<Rightarrow>
               (case h_copy_row_list (h @ [ORows []]) (m(a \<mapsto> length h)) (length h) ras of
                  (Inl e, m', h') \<Rightarrow> (Inl e, m', h')
                | (Inr u, m', h') \<Rightarrow> (Inr (length h), m', h'))
           | _ \<Rightarrow> (Inl TypeError, m, h)))"

definition h_deepcopy :: "store \<Rightarrow> addr \<Rightarrow> (error + addr) \<times> store" where
  "h_deepcopy h b =
     (case h_lookup h b of
        Some (OBoard sz n ra) \<Rightarrow>
          (case h_copy_rows h Map.empty ra of
             (Inl e, m, h') \<Rightarrow> (Inl e, h')
           | (Inr ra', m, h') \<Rightarrow> (Inr (length h'), h' @ [OBoard sz n ra']))
      | _ \<Rightarrow> (Inl TypeError, h))"

subsection \<open>The tests and the search on the store\<close>

definition h_goal_test :: "store \<Rightarrow> addr \<Rightarrow> error + bool" where
  "h_goal_test h b =
     (case h_lookup h b of
        Some (OBoard sz n ra) \<Rightarrow> Inr (n = int (sz * sz))
      | _ \<Rightarrow> Inl AttributeError)"

definition h_falsy :: "store \<Rightarrow> hcell \<Rightarrow> error + bool" where
  "h_falsy h x =
     (case x of
        HVal n \<Rightarrow> Inr (n = 0)
      | HRef a \<Rightarrow>
          (case h_lookup h a of Some (OCands xs) \<Rightarrow> Inr (xs = []) | _ \<Rightarrow> Inl TypeError))"

fun h_any_falsy :: "store \<Rightarrow> hcell list \<Rightarrow> error + bool" where
  "h_any_falsy h [] = Inr False"
| "h_any_falsy h (x # xs) =
     (case h_falsy h x of
        Inl e \<Rightarrow> Inl e
      | Inr t \<Rightarrow> if t then Inr True else h_any_falsy h xs)"

fun h_any_falsy_rows :: "store \<Rightarrow> addr list \<Rightarrow> error + bool" where
  "h_any_falsy_rows h [] = Inr False"
| "h_any_falsy_rows h (a # as) =
     (case h_lookup h a of
        Some (ORow cells) \<Rightarrow>
          (case h_any_falsy h cells of
             Inl e \<Rightarrow> Inl e
           | Inr t \<Rightarrow> if t then Inr True else h_any_falsy_rows h as)
      | _ \<Rightarrow> Inl TypeError)"

definition h_failure_test :: "store \<Rightarrow> addr \<Rightarrow> error + bool" where
  "h_failure_test h b =
     (case h_rows h b of Inl e \<Rightarrow> Inl e | Inr ras \<Rightarrow> h_any_falsy_rows h ras)"

fun h_mcc_scan :: "store \<Rightarrow> addr \<Rightarrow> (nat \<times> nat) list \<Rightarrow> nat \<times> nat \<times> nat \<Rightarrow> error + nat \<times> nat \<times> nat" where
  "h_mcc_scan h b [] s = Inr s"
| "h_mcc_scan h b ((i, j) # ps) (mini, row, col) =
     (case h_get_cell h b i j of
        Inl e \<Rightarrow> Inl e
      | Inr (HVal n) \<Rightarrow> h_mcc_scan h b ps (mini, row, col)
      | Inr (HRef a) \<Rightarrow>
          (case h_lookup h a of
             Some (OCands xs) \<Rightarrow>
               (if length xs < mini then h_mcc_scan h b ps (length xs, i, j)
                else h_mcc_scan h b ps (mini, row, col))
           | _ \<Rightarrow> Inl TypeError))"

definition h_find_most_constrained_cell :: "store \<Rightarrow> addr \<Rightarrow> error + nat \<times> nat" where
  "h_find_most_constrained_cell h b =
     (case h_lookup h b of
        Some (OBoard sz n ra) \<Rightarrow>
          (case h_mcc_scan h b (List.product [0..<sz] [0..<sz]) (sz, 0, 0) of
             Inl e \<Rightarrow> Inl e
           | Inr (mini, row, col) \<Rightarrow> Inr (row, col))
      | _ \<Rightarrow> Inl AttributeError)"

text \<open>
  \<^verbatim>\<open>for pos in possibilities\<close>, with the list iterator Python uses: an index into the
  list object at \<open>pa\<close>, which is read again at every step. Each step takes one unit of
  the step budget.
\<close>

fun h_for_possibilities ::
  "nat \<Rightarrow> store \<Rightarrow> addr \<Rightarrow> nat \<Rightarrow> nat \<Rightarrow> addr \<Rightarrow> nat \<Rightarrow> addr list \<Rightarrow> (error + addr list) \<times> store" where
  "h_for_possibilities 0 h cur row col pa idx stack = (Inl OutOfFuel, h)"
| "h_for_possibilities (Suc fuel) h cur row col pa idx stack =
     (case h_lookup h pa of
        Some (OCands xs) \<Rightarrow>
          if idx < length xs then
            (case h_deepcopy h cur of
               (Inl e, h1) \<Rightarrow> (Inl e, h1)
             | (Inr cpy, h1) \<Rightarrow>
                 (case h_update h1 cpy row col (xs ! idx) of
                    (Inl e, h2) \<Rightarrow> (Inl e, h2)
                  | (Inr u, h2) \<Rightarrow>
                      h_for_possibilities fuel h2 cur row col pa (idx + 1) (push cpy stack)))
          else (Inr stack, h)
      | _ \<Rightarrow> (Inl TypeError, h))"

text \<open>The \<^verbatim>\<open>while\<close> loop of \<^verbatim>\<open>DFS\<close>; the stack holds addresses of boards.\<close>

fun h_DFS_loop :: "nat \<Rightarrow> store \<Rightarrow> addr list \<Rightarrow> (error + addr option) \<times> store" where
  "h_DFS_loop 0 h stack = (Inl OutOfFuel, h)"
| "h_DFS_loop (Suc fuel) h stack =
     (if is_empty stack then (Inr None, h)
      else
        (case pop stack of
           None \<Rightarrow> (Inl IndexError, h)
         | Some (cur, stack') \<Rightarrow>
            (case h_goal_test h cur of
               Inl e \<Rightarrow> (Inl e, h)
             | Inr g \<Rightarrow>
                if g then (Inr (Some cur), h)
                else
                  (case h_failure_test h cur of
                     Inl e \<Rightarrow> (Inl e, h)
                   | Inr f \<Rightarrow>
                      if \<not> f then
                        (case h_find_most_constrained_cell h cur of
                           Inl e \<Rightarrow> (Inl e, h)
                         | Inr (row, col) \<Rightarrow>
                            (case h_get_cell h cur row col of
                               Inl e \<Rightarrow> (Inl e, h)
                             | Inr (HVal n) \<Rightarrow> (Inl TypeError, h)
                             | Inr (HRef pa) \<Rightarrow>
                                (case h_for_possibilities fuel h cur row col pa 0 stack' of
                                   (Inl e, h1) \<Rightarrow> (Inl e, h1)
                                 | (Inr stack'', h1) \<Rightarrow> h_DFS_loop fuel h1 stack'')))
                      else h_DFS_loop fuel h stack'))))"

definition h_DFS :: "nat \<Rightarrow> store \<Rightarrow> addr \<Rightarrow> (error + addr option) \<times> store" where
  "h_DFS fuel h state = h_DFS_loop fuel h (Stack [state])"

subsection \<open>Building and reading a board in the store\<close>

text \<open>
  \<^verbatim>\<open>Board()\<close>: 81 new lists \<^verbatim>\<open>list(range(1, 10))\<close> in nine new row lists. The
  allocation is written for any size and any list of numbers, so that small boards can
  serve as examples; \<^verbatim>\<open>Board()\<close> itself is \<open>h_Board\<close>.
\<close>

fun h_new_cells :: "int list \<Rightarrow> nat \<Rightarrow> store \<Rightarrow> hcell list \<times> store" where
  "h_new_cells xs 0 h = ([], h)"
| "h_new_cells xs (Suc k) h =
     (case h_new_cells xs k h of
        (cells, h') \<Rightarrow> (cells @ [HRef (length h')], h' @ [OCands xs]))"

fun h_new_rows :: "int list \<Rightarrow> nat \<Rightarrow> nat \<Rightarrow> store \<Rightarrow> addr list \<times> store" where
  "h_new_rows xs sz 0 h = ([], h)"
| "h_new_rows xs sz (Suc k) h =
     (case h_new_rows xs sz k h of
        (ras, h') \<Rightarrow>
          (case h_new_cells xs sz h' of
             (cells, h'') \<Rightarrow> (ras @ [length h''], h'' @ [ORow cells])))"

definition h_new_board :: "int list \<Rightarrow> nat \<Rightarrow> store \<Rightarrow> addr \<times> store" where
  "h_new_board xs sz h =
     (case h_new_rows xs sz sz h of
        (ras, h') \<Rightarrow> (Suc (length h'), h' @ [ORows ras, OBoard sz 0 (length h')]))"

definition h_Board :: "store \<Rightarrow> addr \<times> store" where
  "h_Board h = h_new_board (map int [1..<10]) 9 h"

text \<open>
  The board at an address read as a value of the value layer: every list a cell refers
  to is read out. \<open>None\<close> when a reference leads nowhere or to an object of another role.
\<close>

definition h_cell_view :: "store \<Rightarrow> hcell \<Rightarrow> cell option" where
  "h_cell_view h x =
     (case x of
        HVal n \<Rightarrow> Some (Val n)
      | HRef a \<Rightarrow> (case h_lookup h a of Some (OCands xs) \<Rightarrow> Some (Cands xs) | _ \<Rightarrow> None))"

definition h_row_view :: "store \<Rightarrow> addr \<Rightarrow> cell list option" where
  "h_row_view h a =
     (case h_lookup h a of
        Some (ORow cells) \<Rightarrow> those (map (h_cell_view h) cells)
      | _ \<Rightarrow> None)"

definition h_view :: "store \<Rightarrow> addr \<Rightarrow> board option" where
  "h_view h b =
     (case h_lookup h b of
        Some (OBoard sz n ra) \<Rightarrow>
          (case h_lookup h ra of
             Some (ORows ras) \<Rightarrow>
               (case those (map (h_row_view h) ras) of
                  Some rs \<Rightarrow> Some \<lparr> size_attr = sz, num_nums_placed = n, rows = rs \<rparr>
                | None \<Rightarrow> None)
           | _ \<Rightarrow> None)
      | _ \<Rightarrow> None)"

section \<open>Specification vocabulary\<close>

text \<open>The 9 by 9 shape every index of the source assumes.\<close>

definition grid :: "cell list list \<Rightarrow> bool" where
  "grid rs \<longleftrightarrow> length rs = 9 \<and> (\<forall>i<9. length (rs ! i) = 9)"

definition shape_ok :: "board \<Rightarrow> bool" where
  "shape_ok b \<longleftrightarrow> size_attr b = 9 \<and> grid (rows b)"

text \<open>Cell \<open>(i, j)\<close> shares the row, the column or the 3 by 3 subgrid of \<open>(r, c)\<close>.\<close>

definition peer :: "nat \<Rightarrow> nat \<Rightarrow> nat \<Rightarrow> nat \<Rightarrow> bool" where
  "peer r c i j \<longleftrightarrow> i = r \<or> j = c \<or> (i div 3 = r div 3 \<and> j div 3 = c div 3)"

text \<open>\<open>k\<close> calls of \<^verbatim>\<open>remove_if_exists\<close> on one cell.\<close>

definition rem_pow :: "int \<Rightarrow> nat \<Rightarrow> cell \<Rightarrow> cell" where
  "rem_pow v k x = ((\<lambda>y. remove_if_exists y v) ^^ k) x"


text \<open>What \<^verbatim>\<open>update(r, c, v)\<close> leaves in cell \<open>(i, j)\<close> when no list repeats a number.\<close>

definition assigned :: "board \<Rightarrow> nat \<Rightarrow> nat \<Rightarrow> int \<Rightarrow> nat \<Rightarrow> nat \<Rightarrow> cell" where
  "assigned b r c v i j =
     (if i = r \<and> j = c then Val v
      else if peer r c i j then remove_if_exists (rows b ! i ! j) v
      else rows b ! i ! j)"

definition cands_distinct :: "board \<Rightarrow> bool" where
  "cands_distinct b \<longleftrightarrow> (\<forall>i<9. \<forall>j<9. \<forall>xs. rows b ! i ! j = Cands xs \<longrightarrow> distinct xs)"

fun cell_ok :: "cell \<Rightarrow> bool" where
  "cell_ok (Val n) \<longleftrightarrow> 1 \<le> n \<and> n \<le> 9"
| "cell_ok (Cands xs) \<longleftrightarrow> sorted_wrt (<) xs \<and> set xs \<subseteq> {1..9}"

definition cells_ok :: "board \<Rightarrow> bool" where
  "cells_ok b \<longleftrightarrow> (\<forall>i<9. \<forall>j<9. cell_ok (rows b ! i ! j))"

definition propagated :: "board \<Rightarrow> bool" where
  "propagated b \<longleftrightarrow>
     (\<forall>i<9. \<forall>j<9. \<forall>i'<9. \<forall>j'<9. \<forall>n xs.
        peer i j i' j' \<longrightarrow> rows b ! i ! j = Val n \<longrightarrow> rows b ! i' ! j' = Cands xs \<longrightarrow> n \<notin> set xs)"

definition nfixed :: "board \<Rightarrow> nat" where
  "nfixed b = length (filter is_Val (concat (rows b)))"

text \<open>\<^verbatim>\<open>num_nums_placed\<close> agrees with the number of cells that hold a number.\<close>

definition counted :: "board \<Rightarrow> bool" where
  "counted b \<longleftrightarrow> num_nums_placed b = int (nfixed b)"

text \<open>Every move of the sequence is made on a cell that holds a list when its turn comes.\<close>

fun all_on_lists :: "board \<Rightarrow> (nat \<times> nat \<times> int) list \<Rightarrow> bool" where
  "all_on_lists b [] = True"
| "all_on_lists b ((r, c, v) # ms) =
     (case get_cell (rows b) r c of
        Inr (Cands xs) \<Rightarrow>
          (case update b r c v of Inl e \<Rightarrow> False | Inr b' \<Rightarrow> all_on_lists b' ms)
      | Inr (Val n) \<Rightarrow> False
      | Inl e \<Rightarrow> False)"

text \<open>The cell at a coordinate pair is not a list of length \<open>m\<close> or less.\<close>

definition longer_than :: "cell list list \<Rightarrow> nat \<Rightarrow> nat \<times> nat \<Rightarrow> bool" where
  "longer_than rs m p \<longleftrightarrow> (\<forall>xs. rs ! fst p ! snd p = Cands xs \<longrightarrow> m < length xs)"

definition at_least :: "cell list list \<Rightarrow> nat \<Rightarrow> nat \<times> nat \<Rightarrow> bool" where
  "at_least rs m p \<longleftrightarrow> (\<forall>xs. rs ! fst p ! snd p = Cands xs \<longrightarrow> m \<le> length xs)"

text \<open>
  The board keeps the spec's data model: the 9 by 9 shape, numbers in 1..9, ascending
  lists of numbers in 1..9, and no list beside a number it contains.
\<close>

definition well_formed :: "board \<Rightarrow> bool" where
  "well_formed b \<longleftrightarrow> shape_ok b \<and> cells_ok b \<and> propagated b"

text \<open>
  The frontier runs empty from this stack on: every board popped fails the goal test and
  the loop body goes on, until nothing is left.
\<close>

inductive exhausts :: "board list \<Rightarrow> bool" where
  empty: "exhausts []"
| step: "\<not> goal_test cur \<Longrightarrow> DFS_body cur stack = Next stack' \<Longrightarrow> exhausts stack' \<Longrightarrow>
         exhausts (cur # stack)"

code_pred exhausts .

text \<open>Two different cells that see each other hold the same number.\<close>

definition clash :: "board \<Rightarrow> nat \<Rightarrow> nat \<Rightarrow> nat \<Rightarrow> nat \<Rightarrow> bool" where
  "clash b i j i' j' \<longleftrightarrow>
     (i \<noteq> i' \<or> j \<noteq> j') \<and> peer i j i' j' \<and>
     (\<exists>n. rows b ! i ! j = Val n \<and> rows b ! i' ! j' = Val n)"

text \<open>
  A board that carries the seeded mistake: cells \<open>(r, c1)\<close> and \<open>(r, c2)\<close> of one row
  hold the same number \<open>v\<close>, and apart from row \<open>r\<close> no two cells that see each other
  hold the same number.
\<close>

definition doomed :: "nat \<Rightarrow> nat \<Rightarrow> nat \<Rightarrow> int \<Rightarrow> board \<Rightarrow> bool" where
  "doomed r c1 c2 v b \<longleftrightarrow>
     well_formed b \<and> counted b \<and> r < 9 \<and> c1 < 9 \<and> c2 < 9 \<and> c1 \<noteq> c2 \<and>
     rows b ! r ! c1 = Val v \<and> rows b ! r ! c2 = Val v \<and>
     (\<forall>i<9. \<forall>j<9. \<forall>i'<9. \<forall>j'<9. clash b i j i' j' \<longrightarrow> i = r \<and> i' = r)"

text \<open>The addresses an object refers to.\<close>

fun refs :: "obj \<Rightarrow> addr set" where
  "refs (OBoard sz n ra) = {ra}"
| "refs (ORows ras) = set ras"
| "refs (ORow cells) = {a. HRef a \<in> set cells}"
| "refs (OCands xs) = {}"

text \<open>
  The part of the store from address \<open>n\<close> on is closed: its objects refer to addresses
  from \<open>n\<close> on only. The store has at least \<open>n\<close> objects.
\<close>

definition closed_from :: "nat \<Rightarrow> store \<Rightarrow> bool" where
  "closed_from n h \<longleftrightarrow>
     n \<le> length h \<and> (\<forall>a. n \<le> a \<and> a < length h \<longrightarrow> (\<forall>a'\<in>refs (h ! a). n \<le> a'))"

text \<open>Store \<open>h'\<close> extends \<open>h\<close> and has the same objects below address \<open>n\<close>.\<close>

definition same_below :: "nat \<Rightarrow> store \<Rightarrow> store \<Rightarrow> bool" where
  "same_below n h h' \<longleftrightarrow> length h \<le> length h' \<and> take n h' = take n h"

definition memo_from :: "nat \<Rightarrow> memo \<Rightarrow> bool" where
  "memo_from n m \<longleftrightarrow> (\<forall>a a'. m a = Some a' \<longrightarrow> n \<le> a')"

text \<open>
  Two small stores for examples: a board of size 3 with the numbers 1..3, built the way
  \<^verbatim>\<open>Board()\<close> builds the board of size 9 (its instance is at address 13), and a
  completed 9 by 9 board (instance at address 10).
\<close>

definition mini_store :: store where
  "mini_store = snd (h_new_board [1, 2, 3] 3 [])"

definition solved_grid :: "int list list" where
  "solved_grid =
     [[1, 2, 3, 4, 5, 6, 7, 8, 9],
      [4, 5, 6, 7, 8, 9, 1, 2, 3],
      [7, 8, 9, 1, 2, 3, 4, 5, 6],
      [2, 3, 4, 5, 6, 7, 8, 9, 1],
      [5, 6, 7, 8, 9, 1, 2, 3, 4],
      [8, 9, 1, 2, 3, 4, 5, 6, 7],
      [3, 4, 5, 6, 7, 8, 9, 1, 2],
      [6, 7, 8, 9, 1, 2, 3, 4, 5],
      [9, 1, 2, 3, 4, 5, 6, 7, 8]]"

definition solved_store :: store where
  "solved_store = map (\<lambda>row. ORow (map HVal row)) solved_grid @ [ORows [0..<9], OBoard 9 81 9]"

text \<open>
  The board at address \<open>b\<close> of store \<open>h\<close> is the value \<open>v\<close>, and it shares no row list and
  no list of numbers: the row lists are different objects, and no list of numbers is
  held by two cells. This is how \<^verbatim>\<open>Board()\<close> and \<^verbatim>\<open>copy.deepcopy\<close> build a board.
\<close>

definition represents :: "store \<Rightarrow> addr \<Rightarrow> board \<Rightarrow> bool" where
  "represents h b v \<longleftrightarrow>
     (\<exists>ra ras. h_lookup h b = Some (OBoard (size_attr v) (num_nums_placed v) ra) \<and>
        h_lookup h ra = Some (ORows ras) \<and> distinct ras \<and> length ras = length (rows v) \<and>
        (\<forall>i<length ras. \<exists>cells. h_lookup h (ras ! i) = Some (ORow cells) \<and>
            length cells = length (rows v ! i) \<and>
            (\<forall>j<length cells. h_cell_view h (cells ! j) = Some (rows v ! i ! j)))) \<and>
     (\<forall>i i' j j' a. h_get_cell h b i j = Inr (HRef a) \<longrightarrow> h_get_cell h b i' j' = Inr (HRef a) \<longrightarrow>
        i = i' \<and> j = j')"

text \<open>The addresses the cells of a row refer to, in order.\<close>

fun cell_refs :: "hcell list \<Rightarrow> addr list" where
  "cell_refs [] = []"
| "cell_refs (HVal n # xs) = cell_refs xs"
| "cell_refs (HRef a # xs) = a # cell_refs xs"

text \<open>The cells of the row list at an address (none when there is no row list there).\<close>

definition row_cells :: "store \<Rightarrow> addr \<Rightarrow> hcell list" where
  "row_cells h a = (case h_lookup h a of Some (ORow cells) \<Rightarrow> cells | _ \<Rightarrow> [])"

section \<open>Termination of the search\<close>

lemma filter_update_count:
  "j < length xs \<Longrightarrow>
     length (filter P (xs[j := x])) + (if P (xs ! j) then 1 else 0) =
     length (filter P xs) + (if P x then 1 else 0)"
proof (induction xs arbitrary: j)
  case Nil
  then show ?case by simp
next
  case (Cons a xs)
  then show ?case by (cases j) auto
qed

lemma sum_list_map_update:
  "i < length xs \<Longrightarrow>
     sum_list (map f (xs[i := y])) + f (xs ! i) = sum_list (map f xs) + (f y :: nat)"
proof (induction xs arbitrary: i)
  case Nil
  then show ?case by simp
next
  case (Cons a xs)
  then show ?case by (cases i) auto
qed

lemma count_concat: "length (filter P (concat rs)) = sum_list (map (\<lambda>row. length (filter P row)) rs)"
  by (induction rs) auto

lemma count_set_cell:
  assumes "set_cell rs i j x = Inr rs'"
  shows "length (filter P (concat rs')) + (if P (rs ! i ! j) then 1 else 0) =
         length (filter P (concat rs)) + (if P x then 1 else 0)"
proof -
  from assms have ij: "i < length rs" "j < length (rs ! i)"
    and rs': "rs' = rs[i := (rs ! i)[j := x]]"
    by (auto simp: set_cell_def split: if_splits)
  let ?f = "\<lambda>row. length (filter P row)"
  have "sum_list (map ?f rs') + ?f (rs ! i) = sum_list (map ?f rs) + ?f ((rs ! i)[j := x])"
    unfolding rs' using sum_list_map_update[OF ij(1), of ?f] by simp
  moreover have "?f ((rs ! i)[j := x]) + (if P (rs ! i ! j) then 1 else 0) =
      ?f (rs ! i) + (if P x then 1 else 0)"
    using filter_update_count[OF ij(2)] by simp
  ultimately show ?thesis unfolding count_concat by linarith
qed

lemma is_Cands_remove_if_exists: "is_Cands (remove_if_exists x v) = is_Cands x"
  by (cases x) simp_all

lemma is_Val_remove_if_exists: "is_Val (remove_if_exists x v) = is_Val x"
  by (cases x) simp_all

lemma count_remove_at:
  assumes "remove_at rs i j v = Inr rs'" "\<And>x. P (remove_if_exists x v) = P x"
  shows "length (filter P (concat rs')) = length (filter P (concat rs))"
proof -
  from assms(1) obtain x where x: "get_cell rs i j = Inr x" "set_cell rs i j (remove_if_exists x v) = Inr rs'"
    by (auto simp: remove_at_def split: sum.splits)
  from x(1) have "x = rs ! i ! j" by (auto simp: get_cell_def split: if_splits)
  with count_set_cell[OF x(2), of P] show ?thesis by (simp add: assms(2))
qed

lemma count_remove_loop:
  assumes "remove_loop rs ps v = Inr rs'" "\<And>x. P (remove_if_exists x v) = P x"
  shows "length (filter P (concat rs')) = length (filter P (concat rs))"
  using assms(1)
proof (induction ps arbitrary: rs)
  case Nil
  then show ?case by simp
next
  case (Cons p ps)
  obtain i j where p: "p = (i, j)" by (cases p)
  from Cons.prems obtain rs1 where rs1: "remove_at rs i j v = Inr rs1" "remove_loop rs1 ps v = Inr rs'"
    by (auto simp: p split: sum.splits)
  from Cons.IH[OF rs1(2)] count_remove_at[OF rs1(1), of P] assms(2) show ?case by simp
qed

lemma count_update:
  assumes "update b r c v = Inr b'" "\<And>x. P (remove_if_exists x v) = P x"
  shows "length (filter P (concat (rows b'))) + (if P (rows b ! r ! c) then 1 else 0) =
         length (filter P (concat (rows b))) + (if P (Val v) then 1 else 0)"
proof -
  from assms(1) obtain rs1 rs2 coords rs3 where
    s: "set_cell (rows b) r c (Val v) = Inr rs1"
       "remove_loop rs1 (concat (map (\<lambda>i. [(r, i), (i, c)]) [0..<size_attr b])) v = Inr rs2"
       "subgrid_coordinates r c = Inr coords"
       "remove_loop rs2 coords v = Inr rs3"
       "b' = b\<lparr> num_nums_placed := num_nums_placed b + 1, rows := rs3 \<rparr>"
    by (auto simp: update_def split: sum.splits)
  from count_set_cell[OF s(1), of P] count_remove_loop[OF s(2), of P] count_remove_loop[OF s(4), of P]
    assms(2) show ?thesis
    by (simp add: s(5))
qed

lemma ncands_update:
  assumes "update b r c v = Inr b'" "get_cell (rows b) r c = Inr (Cands xs)"
  shows "ncands b' < ncands b"
proof -
  from assms(2) have "rows b ! r ! c = Cands xs" by (auto simp: get_cell_def split: if_splits)
  with count_update[OF assms(1), of is_Cands] show ?thesis
    by (simp add: ncands_def is_Cands_remove_if_exists)
qed

lemma for_possibilities_children:
  "for_possibilities cur row col ps stack = Inr stack' \<Longrightarrow>
     \<exists>children. stack' = children @ stack \<and>
        (\<forall>ch\<in>set children. \<exists>pos. update cur row col pos = Inr ch)"
proof (induction ps arbitrary: stack)
  case Nil
  then show ?case by simp
next
  case (Cons pos ps)
  from Cons.prems obtain cpy where
    cpy: "update cur row col pos = Inr cpy" "for_possibilities cur row col ps (cpy # stack) = Inr stack'"
    by (auto simp: deepcopy_def push_def split: sum.splits)
  from Cons.IH[OF cpy(2)] obtain children where
    ch: "stack' = children @ cpy # stack" "\<forall>ch\<in>set children. \<exists>pos. update cur row col pos = Inr ch"
    by blast
  have "stack' = (children @ [cpy]) @ stack" using ch(1) by simp
  moreover have "\<forall>ch\<in>set (children @ [cpy]). \<exists>pos. update cur row col pos = Inr ch"
    using ch(2) cpy(1) by auto
  ultimately show ?case by blast
qed

lemma DFS_body_Next:
  assumes "DFS_body cur stack = Next stack'"
  shows "\<exists>children. stack' = children @ stack \<and> (\<forall>ch\<in>set children. ncands ch < ncands cur)"
proof (cases "failure_test cur")
  case True
  with assms have "stack' = stack" by (auto simp: DFS_body_def split: if_splits)
  then show ?thesis by simp
next
  case False
  with assms obtain row col ps where
    a: "get_cell (rows cur) row col = Inr (Cands ps)"
       "for_possibilities cur row col ps stack = Inr stack'"
    by (auto simp: DFS_body_def split: if_splits sum.splits cell.splits prod.splits)
  from for_possibilities_children[OF a(2)] obtain children where
    ch: "stack' = children @ stack" "\<forall>ch\<in>set children. \<exists>pos. update cur row col pos = Inr ch"
    by blast
  from ch(2) ncands_update[OF _ a(1)] have "\<forall>ch\<in>set children. ncands ch < ncands cur" by blast
  with ch(1) show ?thesis by blast
qed

termination DFS_loop
proof (relation "inv_image (mult {(x, y). x < y}) (\<lambda>st. mset (map ncands st))")
  show "wf (inv_image (mult {(x::nat, y). x < y}) (\<lambda>st. mset (map ncands st)))"
    using wf_less by (intro wf_inv_image wf_mult) (simp add: less_than_def[symmetric] del: less_than_iff)
next
  fix stack :: "board list" and x2 cur stack' stack''
  assume a: "\<not> is_empty stack" "pop stack = Some x2" "(cur, stack') = x2"
    "DFS_body cur stack' = Next stack''"
  then have st: "stack = cur # stack'" by (cases stack) auto
  from DFS_body_Next[OF a(4)] obtain children where
    ch: "stack'' = children @ stack'" "\<forall>ch\<in>set children. ncands ch < ncands cur"
    by blast
  have "(mset (map ncands stack') + mset (map ncands children),
         mset (map ncands stack') + {#ncands cur#}) \<in> mult {(x, y). x < y}"
    by (rule one_step_implies_mult) (use ch(2) in auto)
  then show "(stack'', stack) \<in> inv_image (mult {(x, y). x < y}) (\<lambda>st. mset (map ncands st))"
    by (simp add: st ch(1) add.commute)
qed

section \<open>What update does to a 9 by 9 board\<close>

lemma remove_if_exists_Cands: "remove_if_exists (Cands xs) v = Cands (remove1 v xs)"
  by (simp add: remove1_idem)

lemma rem_pow_Val: "((\<lambda>x. remove_if_exists x v) ^^ k) (Val n) = Val n"
  by (induction k) simp_all

lemma rem_pow_Cands: "((\<lambda>x. remove_if_exists x v) ^^ k) (Cands xs) = Cands ((remove1 v ^^ k) xs)"
  by (induction k) (simp_all add: remove_if_exists_Cands del: remove_if_exists.simps)

lemma rem_pow_swap:
  "((\<lambda>x. remove_if_exists x v) ^^ k) (remove_if_exists y v) =
   remove_if_exists (((\<lambda>x. remove_if_exists x v) ^^ k) y) v"
  by (induction k) simp_all

lemma remove1_pow_distinct:
  "distinct xs \<Longrightarrow> 0 < k \<Longrightarrow> (remove1 v ^^ k) xs = remove1 v xs"
proof (induction k)
  case 0
  then show ?case by simp
next
  case (Suc k)
  show ?case
  proof (cases "k = 0")
    case True
    then show ?thesis by simp
  next
    case False
    with Suc have "(remove1 v ^^ k) xs = remove1 v xs" by simp
    moreover have "v \<notin> set (remove1 v xs)" using Suc.prems(1) by simp
    ultimately show ?thesis by (simp add: remove1_idem)
  qed
qed

lemma grid_set_cell:
  assumes "grid rs" "i < 9" "j < 9"
  shows "set_cell rs i j x = Inr (rs[i := (rs ! i)[j := x]])"
    and "grid (rs[i := (rs ! i)[j := x]])"
    and "\<And>i' j'. i' < 9 \<Longrightarrow> j' < 9 \<Longrightarrow>
           rs[i := (rs ! i)[j := x]] ! i' ! j' = (if i' = i \<and> j' = j then x else rs ! i' ! j')"
  using assms by (auto simp: grid_def set_cell_def nth_list_update)

lemma grid_get_cell: "grid rs \<Longrightarrow> i < 9 \<Longrightarrow> j < 9 \<Longrightarrow> get_cell rs i j = Inr (rs ! i ! j)"
  by (simp add: grid_def get_cell_def)

lemma grid_remove_at:
  assumes "grid rs" "i < 9" "j < 9"
  shows "\<exists>rs'. remove_at rs i j v = Inr rs' \<and> grid rs' \<and>
           (\<forall>i'<9. \<forall>j'<9. rs' ! i' ! j' =
               (if i' = i \<and> j' = j then remove_if_exists (rs ! i ! j) v else rs ! i' ! j'))"
  using assms grid_set_cell[OF assms, where x = "remove_if_exists (rs ! i ! j) v"]
  by (simp add: remove_at_def grid_get_cell)

lemma grid_remove_loop:
  assumes "grid rs" "\<forall>p\<in>set ps. fst p < 9 \<and> snd p < 9"
  shows "\<exists>rs'. remove_loop rs ps v = Inr rs' \<and> grid rs' \<and>
           (\<forall>i<9. \<forall>j<9. rs' ! i ! j =
               ((\<lambda>x. remove_if_exists x v) ^^ count_list ps (i, j)) (rs ! i ! j))"
  using assms
proof (induction ps arbitrary: rs)
  case Nil
  then show ?case by simp
next
  case (Cons p ps)
  obtain a b where p: "p = (a, b)" by (cases p)
  with Cons.prems have ab: "a < 9" "b < 9" by auto
  from grid_remove_at[OF Cons.prems(1) ab, of v] obtain rs1 where
    rs1: "remove_at rs a b v = Inr rs1" "grid rs1"
      "\<forall>i'<9. \<forall>j'<9. rs1 ! i' ! j' =
          (if i' = a \<and> j' = b then remove_if_exists (rs ! a ! b) v else rs ! i' ! j')"
    by blast
  from Cons.IH[OF rs1(2)] Cons.prems(2) obtain rs' where
    rs': "remove_loop rs1 ps v = Inr rs'" "grid rs'"
      "\<forall>i<9. \<forall>j<9. rs' ! i ! j =
          ((\<lambda>x. remove_if_exists x v) ^^ count_list ps (i, j)) (rs1 ! i ! j)"
    by auto
  have "\<forall>i<9. \<forall>j<9. rs' ! i ! j =
          ((\<lambda>x. remove_if_exists x v) ^^ count_list (p # ps) (i, j)) (rs ! i ! j)"
    using rs'(3) rs1(3) by (auto simp: p rem_pow_swap)
  with rs1(1) rs'(1,2) show ?case by (auto simp: p)
qed

lemma div3_cases: "(i::nat) div 3 = 0 \<longleftrightarrow> i = 0 \<or> i = 1 \<or> i = 2"
  "(i::nat) div 3 = 1 \<longleftrightarrow> i = 3 \<or> i = 4 \<or> i = 5"
  "(i::nat) div 3 = 2 \<longleftrightarrow> i = 6 \<or> i = 7 \<or> i = 8"
  by presburger+

lemma subgrids_nth: "k < 3 \<Longrightarrow> set (subgrids ! k) = {i. i div 3 = k}"
proof -
  assume "k < 3"
  then consider "k = 0" | "k = 1" | "k = 2" by linarith
  then show ?thesis
  proof cases
    case 1
    have "subgrids ! 0 = [0,1,2]" by (simp add: subgrids_def)
    then show ?thesis unfolding 1 using div3_cases(1) by auto
  next
    case 2
    have "subgrids ! 1 = [3,4,5]" by (simp add: subgrids_def)
    then show ?thesis unfolding 2 using div3_cases(2) by auto
  next
    case 3
    have "subgrids ! 2 = [6,7,8]" by (simp add: subgrids_def)
    then show ?thesis unfolding 3 using div3_cases(3) by auto
  qed
qed

lemma count_list_pos: "0 < count_list xs x \<longleftrightarrow> x \<in> set xs"
  by (induction xs) auto

lemma div3_lt9: "x div 3 = r div 3 \<Longrightarrow> r < 9 \<Longrightarrow> x < (9::nat)"
proof -
  assume a: "x div 3 = r div 3" "r < 9"
  then have "x div 3 < 3" by simp
  then show ?thesis by (simp add: div_less_iff_less_mult)
qed

lemma subgrid_coordinates_set:
  assumes "r < 9" "c < 9"
  shows "\<exists>coords. subgrid_coordinates r c = Inr coords \<and>
           set coords = {(i, j). i div 3 = r div 3 \<and> j div 3 = c div 3}"
proof -
  have k: "r div 3 < 3" "c div 3 < 3" using assms by auto
  have len: "length subgrids = 3" by (simp add: subgrids_def)
  show ?thesis
    using subgrids_nth[OF k(1)] subgrids_nth[OF k(2)] k
    by (auto simp: subgrid_coordinates_def len)
qed

lemma row_col_positions_set:
  "set (concat (map (\<lambda>i. [(r, i), (i, c)]) [0..<n])) =
     {(i, j). (i = r \<and> j < n) \<or> (j = c \<and> i < n)}"
  by auto

lemma update_cells:
  assumes "shape_ok b" "r < 9" "c < 9"
  shows "\<exists>rs'. update b r c v = Inr (b\<lparr> num_nums_placed := num_nums_placed b + 1, rows := rs' \<rparr>) \<and>
           grid rs' \<and>
           (\<forall>i<9. \<forall>j<9. \<exists>k. (0 < k \<longleftrightarrow> peer r c i j) \<and>
               rs' ! i ! j = rem_pow v k (if i = r \<and> j = c then Val v else rows b ! i ! j))"
proof -
  define ps where "ps = concat (map (\<lambda>i. [(r, i), (i, c)]) [0..<9])"
  from assms have g: "grid (rows b)" and sz: "size_attr b = 9" by (simp_all add: shape_ok_def)
  define rs1 where "rs1 = (rows b)[r := (rows b ! r)[c := Val v]]"
  note sc = grid_set_cell[OF g assms(2,3), where x = "Val v", folded rs1_def]
  have pset: "set ps = {(i, j). (i = r \<and> j < 9) \<or> (j = c \<and> i < 9)}"
    unfolding ps_def by (rule row_col_positions_set)
  have ps: "\<forall>p\<in>set ps. fst p < 9 \<and> snd p < 9"
    unfolding pset using assms(2,3) by auto
  from grid_remove_loop[OF sc(2) ps, of v] obtain rs2 where
    rs2: "remove_loop rs1 ps v = Inr rs2" "grid rs2"
      "\<forall>i<9. \<forall>j<9. rs2 ! i ! j = rem_pow v (count_list ps (i, j)) (rs1 ! i ! j)"
    unfolding rem_pow_def by (elim exE conjE)
  from subgrid_coordinates_set[OF assms(2,3)] obtain coords where
    co: "subgrid_coordinates r c = Inr coords"
      "set coords = {(i, j). i div 3 = r div 3 \<and> j div 3 = c div 3}"
    by (elim exE conjE)
  have cs: "\<forall>p\<in>set coords. fst p < 9 \<and> snd p < 9"
    unfolding co(2) using div3_lt9[OF _ assms(2)] div3_lt9[OF _ assms(3)] by auto
  from grid_remove_loop[OF rs2(2) cs, of v] obtain rs3 where
    rs3: "remove_loop rs2 coords v = Inr rs3" "grid rs3"
      "\<forall>i<9. \<forall>j<9. rs3 ! i ! j = rem_pow v (count_list coords (i, j)) (rs2 ! i ! j)"
    unfolding rem_pow_def by (elim exE conjE)
  have upd: "update b r c v = Inr (b\<lparr> num_nums_placed := num_nums_placed b + 1, rows := rs3 \<rparr>)"
    unfolding update_def sz sc(1)[unfolded rs1_def] sum.case rs2(1)[unfolded rs1_def ps_def] co(1) rs3(1) ..
  have cells: "\<exists>k. (0 < k \<longleftrightarrow> peer r c i j) \<and>
      rs3 ! i ! j = rem_pow v k (if i = r \<and> j = c then Val v else rows b ! i ! j)"
    if ij: "i < 9" "j < 9" for i j
  proof -
    let ?k = "count_list coords (i, j) + count_list ps (i, j)"
    have "rs3 ! i ! j = rem_pow v (count_list coords (i, j)) (rem_pow v (count_list ps (i, j)) (rs1 ! i ! j))"
      using rs3(3) rs2(3) ij by simp
    then have "rs3 ! i ! j = rem_pow v ?k (rs1 ! i ! j)"
      by (simp add: rem_pow_def funpow_add)
    moreover have "rs1 ! i ! j = (if i = r \<and> j = c then Val v else rows b ! i ! j)"
      using sc(3)[OF ij] .
    moreover have "0 < ?k \<longleftrightarrow> peer r c i j"
    proof -
      have "0 < ?k \<longleftrightarrow> (i, j) \<in> set coords \<or> (i, j) \<in> set ps"
        unfolding add_gr_0 count_list_pos ..
      also have "\<dots> \<longleftrightarrow> peer r c i j"
        unfolding co(2) pset using ij by (auto simp: peer_def)
      finally show ?thesis .
    qed
    ultimately have "(0 < ?k \<longleftrightarrow> peer r c i j) \<and>
      rs3 ! i ! j = rem_pow v ?k (if i = r \<and> j = c then Val v else rows b ! i ! j)"
      by simp
    then show ?thesis ..
  qed
  have all: "\<forall>i<9. \<forall>j<9. \<exists>k. (0 < k \<longleftrightarrow> peer r c i j) \<and>
      rs3 ! i ! j = rem_pow v k (if i = r \<and> j = c then Val v else rows b ! i ! j)"
    using cells by simp
  show ?thesis
    by (rule exI[of _ rs3]) (intro conjI upd rs3(2) all)
qed

lemma peer_sym: "peer r c i j \<longleftrightarrow> peer i j r c"
  by (auto simp: peer_def)

lemma peer_refl: "peer r c r c"
  by (simp add: peer_def)

lemma rem_pow_distinct:
  assumes "\<forall>xs. x = Cands xs \<longrightarrow> distinct xs"
  shows "rem_pow v k x = (if 0 < k then remove_if_exists x v else x)"
proof (cases x)
  case (Val n)
  then show ?thesis by (simp add: rem_pow_def rem_pow_Val)
next
  case (Cands xs)
  with assms have "distinct xs" by simp
  then show ?thesis
    unfolding Cands rem_pow_def rem_pow_Cands remove_if_exists_Cands
    by (simp add: remove1_pow_distinct)
qed

lemma update_explicit:
  assumes "shape_ok b" "cands_distinct b" "r < 9" "c < 9"
  shows "\<exists>b'. update b r c v = Inr b' \<and> shape_ok b' \<and>
           num_nums_placed b' = num_nums_placed b + 1 \<and>
           (\<forall>i<9. \<forall>j<9. rows b' ! i ! j = assigned b r c v i j)"
proof -
  from update_cells[OF assms(1,3,4), of v] obtain rs' where
    rs': "update b r c v = Inr (b\<lparr> num_nums_placed := num_nums_placed b + 1, rows := rs' \<rparr>)"
      "grid rs'"
      "\<forall>i<9. \<forall>j<9. \<exists>k. (0 < k \<longleftrightarrow> peer r c i j) \<and>
          rs' ! i ! j = rem_pow v k (if i = r \<and> j = c then Val v else rows b ! i ! j)"
    by (elim exE conjE)
  let ?b' = "b\<lparr> num_nums_placed := num_nums_placed b + 1, rows := rs' \<rparr>"
  have cell: "rows ?b' ! i ! j = assigned b r c v i j" if ij: "i < 9" "j < 9" for i j
  proof -
    from rs'(3) ij obtain k where
      k: "0 < k \<longleftrightarrow> peer r c i j"
         "rs' ! i ! j = rem_pow v k (if i = r \<and> j = c then Val v else rows b ! i ! j)"
      by blast
    show ?thesis
    proof (cases "i = r \<and> j = c")
      case True
      with k(2) show ?thesis by (simp add: assigned_def rem_pow_def rem_pow_Val)
    next
      case False
      have "\<forall>xs. rows b ! i ! j = Cands xs \<longrightarrow> distinct xs"
        using assms(2) ij by (simp add: cands_distinct_def)
      from rem_pow_distinct[OF this, where v = v and k = k] k(1)
      have "rem_pow v k (rows b ! i ! j) =
          (if peer r c i j then remove_if_exists (rows b ! i ! j) v else rows b ! i ! j)"
        by simp
      moreover have "rs' ! i ! j = rem_pow v k (rows b ! i ! j)"
        using k(2) False by auto
      moreover have "assigned b r c v i j =
          (if peer r c i j then remove_if_exists (rows b ! i ! j) v else rows b ! i ! j)"
        using False unfolding assigned_def by auto
      ultimately show ?thesis by simp
    qed
  qed
  have "shape_ok ?b'" using assms(1) rs'(2) by (simp add: shape_ok_def)
  moreover have "num_nums_placed ?b' = num_nums_placed b + 1" by simp
  moreover have "\<forall>i<9. \<forall>j<9. rows ?b' ! i ! j = assigned b r c v i j" using cell by simp
  ultimately show ?thesis using rs'(1) by (intro exI[of _ ?b'] conjI)
qed

lemma cell_ok_distinct: "cell_ok (Cands xs) \<Longrightarrow> distinct xs"
  by (simp add: strict_sorted_iff)

lemma cells_ok_distinct: "cells_ok b \<Longrightarrow> cands_distinct b"
  unfolding cells_ok_def cands_distinct_def using cell_ok_distinct by metis

lemma cell_ok_remove_if_exists:
  assumes "cell_ok x"
  shows "cell_ok (remove_if_exists x v)"
proof (cases x)
  case (Val n)
  with assms show ?thesis by simp
next
  case (Cands xs)
  with assms have s: "sorted xs" "distinct xs" "set xs \<subseteq> {1..9}" by (simp_all add: strict_sorted_iff)
  have "sorted (remove1 v xs)" "distinct (remove1 v xs)" using s(1,2) by (simp_all add: sorted_remove1)
  moreover have "set (remove1 v xs) \<subseteq> {1..9}" using s(3) set_remove1_subset[of v xs] by blast
  ultimately show ?thesis unfolding Cands remove_if_exists_Cands by (simp add: strict_sorted_iff)
qed

lemma cell_ok_assigned:
  assumes "cells_ok b" "1 \<le> v" "v \<le> 9" "i < 9" "j < 9"
  shows "cell_ok (assigned b r c v i j)"
  using assms cell_ok_remove_if_exists[of "rows b ! i ! j" v]
  by (simp add: assigned_def cells_ok_def)

lemma assigned_Val:
  "assigned b r c v i j = Val n \<Longrightarrow> (i = r \<and> j = c \<and> n = v) \<or> ((i \<noteq> r \<or> j \<noteq> c) \<and> rows b ! i ! j = Val n)"
  by (cases "rows b ! i ! j") (auto simp: assigned_def split: if_splits)

lemma assigned_Cands:
  assumes "assigned b r c v i j = Cands xs"
  shows "(i \<noteq> r \<or> j \<noteq> c) \<and> (\<exists>ys. rows b ! i ! j = Cands ys \<and> set xs \<subseteq> set ys \<and>
           (peer r c i j \<longrightarrow> xs = remove1 v ys) \<and> (\<not> peer r c i j \<longrightarrow> xs = ys))"
proof (cases "rows b ! i ! j")
  case (Val n)
  with assms show ?thesis by (auto simp: assigned_def split: if_splits)
next
  case (Cands ys)
  with assms show ?thesis
    using set_remove1_subset[of v ys]
    by (auto simp: assigned_def remove_if_exists_Cands simp del: remove_if_exists.simps split: if_splits)
qed

lemma propagated_update:
  assumes "shape_ok b" "cands_distinct b" "propagated b" "r < 9" "c < 9" "update b r c v = Inr b'"
  shows "propagated b'"
proof -
  from update_explicit[OF assms(1,2,4,5), of v] assms(6) have
    cells: "\<forall>i<9. \<forall>j<9. rows b' ! i ! j = assigned b r c v i j" by auto
  show ?thesis
    unfolding propagated_def
  proof (intro allI impI)
    fix i j i' j' n xs
    assume a: "i < 9" "j < 9" "i' < 9" "j' < 9" "peer i j i' j'"
      "rows b' ! i ! j = Val n" "rows b' ! i' ! j' = Cands xs"
    from a cells have v: "assigned b r c v i j = Val n" and cs: "assigned b r c v i' j' = Cands xs"
      by simp_all
    from assigned_Cands[OF cs] obtain ys where
      ys: "i' \<noteq> r \<or> j' \<noteq> c" "rows b ! i' ! j' = Cands ys" "set xs \<subseteq> set ys"
        "peer r c i' j' \<longrightarrow> xs = remove1 v ys"
      by blast
    have dys: "distinct ys" using assms(2) a(3,4) ys(2) by (simp add: cands_distinct_def)
    from assigned_Val[OF v] show "n \<notin> set xs"
    proof
      assume "i = r \<and> j = c \<and> n = v"
      with a(5) ys(4) have "xs = remove1 v ys" "n = v" by simp_all
      with dys show ?thesis by simp
    next
      assume "(i \<noteq> r \<or> j \<noteq> c) \<and> rows b ! i ! j = Val n"
      with assms(3) a(1-5) ys(2) have "n \<notin> set ys" unfolding propagated_def by blast
      with ys(3) show ?thesis by blast
    qed
  qed
qed

lemma cells_ok_update:
  assumes "shape_ok b" "cells_ok b" "r < 9" "c < 9" "1 \<le> v" "v \<le> 9" "update b r c v = Inr b'"
  shows "cells_ok b'"
proof -
  from update_explicit[OF assms(1) cells_ok_distinct[OF assms(2)] assms(3,4), of v] assms(7) have
    cells: "\<forall>i<9. \<forall>j<9. rows b' ! i ! j = assigned b r c v i j" by auto
  then show ?thesis
    unfolding cells_ok_def using cell_ok_assigned[OF assms(2,5,6)] by simp
qed

lemma shape_ok_update:
  assumes "shape_ok b" "r < 9" "c < 9" "update b r c v = Inr b'"
  shows "shape_ok b'"
  using update_cells[OF assms(1-3), of v] assms(1,4) by (auto simp: shape_ok_def)

lemma update_in_range:
  assumes "shape_ok b" "r < 9" "c < 9"
  shows "\<exists>b'. update b r c v = Inr b'"
  using update_cells[OF assms, of v] by blast

lemma nfixed_update:
  assumes "update b r c v = Inr b'"
  shows "nfixed b' + (if is_Val (rows b ! r ! c) then 1 else 0) = nfixed b + 1"
  using count_update[OF assms, of is_Val] by (simp add: nfixed_def is_Val_remove_if_exists)

lemma Board_cell: "i < 9 \<Longrightarrow> j < 9 \<Longrightarrow> rows Board ! i ! j = Cands (map int [1..<10])"
  by (simp add: Board_def)

lemma Board_shape: "shape_ok Board"
  by (simp add: shape_ok_def grid_def Board_def)

lemma Board_cells_ok: "cells_ok Board"
proof -
  have "cell_ok (Cands (map int [1..<10]))"
    by (simp add: upt_rec)
  then show ?thesis by (simp add: cells_ok_def Board_cell)
qed

lemma Board_propagated: "propagated Board"
  by (simp add: propagated_def Board_cell)

lemma Board_distinct: "cands_distinct Board"
  by (rule cells_ok_distinct[OF Board_cells_ok])

text \<open>
  C1. After \<^verbatim>\<open>update(r, c, v)\<close> on a 9 by 9 board whose candidate lists repeat no number,
  with \<open>r\<close> and \<open>c\<close> in range, no cell of row \<open>r\<close>, of column \<open>c\<close> or of the subgrid of
  \<open>(r, c)\<close> that still holds a list has \<open>v\<close> in it. The call returns normally.
\<close>

theorem update_eliminates:
  assumes "shape_ok b" "cands_distinct b" "r < 9" "c < 9"
  shows "\<exists>b'. update b r c v = Inr b' \<and>
           (\<forall>i<9. \<forall>j<9. peer r c i j \<longrightarrow>
              (\<forall>xs. rows b' ! i ! j = Cands xs \<longrightarrow> v \<notin> set xs))"
proof -
  from update_explicit[OF assms, of v] obtain b' where
    b': "update b r c v = Inr b'" "\<forall>i<9. \<forall>j<9. rows b' ! i ! j = assigned b r c v i j"
    by blast
  have "v \<notin> set xs" if a: "i < 9" "j < 9" "peer r c i j" "rows b' ! i ! j = Cands xs" for i j xs
  proof -
    from b'(2) a have "assigned b r c v i j = Cands xs" by simp
    from assigned_Cands[OF this] a(3) obtain ys where
      ys: "rows b ! i ! j = Cands ys" "xs = remove1 v ys" by blast
    from assms(2) a(1,2) ys(1) have "distinct ys" by (simp add: cands_distinct_def)
    with ys(2) show ?thesis by simp
  qed
  with b'(1) show ?thesis by blast
qed

theorem update_eliminates_witness:
  "shape_ok Board \<and> cands_distinct Board \<and>
   (\<exists>b'. update Board 0 0 1 = Inr b' \<and>
      (\<forall>i<9. \<forall>j<9. peer 0 0 i j \<longrightarrow>
         (\<forall>xs. rows b' ! i ! j = Cands xs \<longrightarrow> 1 \<notin> set xs)))"
  using update_eliminates[OF Board_shape Board_distinct, of 0 0 1] Board_shape Board_distinct
  by simp

lemma list_ex_falsy:
  assumes "\<forall>n. Val n \<in> set row \<longrightarrow> n \<noteq> 0"
  shows "list_ex falsy row \<longleftrightarrow> Cands [] \<in> set row"
proof
  assume "list_ex falsy row"
  then obtain x where x: "x \<in> set row" "falsy x" by (auto simp: list_ex_iff)
  with assms show "Cands [] \<in> set row" by (cases x) auto
next
  assume "Cands [] \<in> set row"
  then show "list_ex falsy row" by (auto simp: list_ex_iff intro: bexI[of _ "Cands []"])
qed

text \<open>
  C6. When every assigned number lies in 1..9, \<^verbatim>\<open>failure_test\<close> is true exactly when
  some cell holds the empty list.
\<close>

theorem failure_test_iff_empty_list:
  assumes "\<forall>row\<in>set (rows b). \<forall>n. Val n \<in> set row \<longrightarrow> 1 \<le> n \<and> n \<le> 9"
  shows "failure_test b \<longleftrightarrow> (\<exists>row\<in>set (rows b). Cands [] \<in> set row)"
proof -
  have "list_ex falsy row \<longleftrightarrow> Cands [] \<in> set row" if "row \<in> set (rows b)" for row
  proof (rule list_ex_falsy)
    show "\<forall>n. Val n \<in> set row \<longrightarrow> n \<noteq> 0" using assms that by fastforce
  qed
  then show ?thesis by (simp add: failure_test_def list_ex_iff)
qed

theorem failure_test_iff_empty_list_witness:
  "failure_test \<lparr> size_attr = 9, num_nums_placed = 2, rows = [[Val 3, Cands []], [Cands [1, 2], Val 9]] \<rparr> \<and>
   \<not> failure_test \<lparr> size_attr = 9, num_nums_placed = 2, rows = [[Val 3, Cands [4]], [Cands [1, 2], Val 9]] \<rparr>"
  using failure_test_iff_empty_list[of "\<lparr> size_attr = 9, num_nums_placed = 2, rows = [[Val 3, Cands []], [Cands [1, 2], Val 9]] \<rparr>"]
    failure_test_iff_empty_list[of "\<lparr> size_attr = 9, num_nums_placed = 2, rows = [[Val 3, Cands [4]], [Cands [1, 2], Val 9]] \<rparr>"]
  by simp

lemma counted_update:
  assumes "counted b" "get_cell (rows b) r c = Inr (Cands xs)" "update b r c v = Inr b'"
  shows "counted b'"
proof -
  from assms(2) have x: "rows b ! r ! c = Cands xs" by (auto simp: get_cell_def split: if_splits)
  from assms(3) have n: "num_nums_placed b' = num_nums_placed b + 1"
    by (auto simp: update_def split: sum.splits)
  from nfixed_update[OF assms(3)] x have "nfixed b' = nfixed b + 1" by simp
  with n assms(1) show ?thesis by (simp add: counted_def)
qed

lemma counted_Board: "counted Board"
  by (simp add: counted_def nfixed_def Board_def)

text \<open>
  C3, as amended. The fresh board has \<^verbatim>\<open>num_nums_placed\<close> equal to the number of cells
  that hold a number, and a sequence of \<^verbatim>\<open>update\<close> calls each made on a cell that
  holds a list at that moment keeps the two equal (so does each single such call).
\<close>

theorem counter_matches_fixed_cells:
  "counted Board \<and>
   (counted b \<longrightarrow> all_on_lists b ms \<longrightarrow> updates b ms = Inr b' \<longrightarrow> counted b')"
proof -
  have "counted b \<Longrightarrow> all_on_lists b ms \<Longrightarrow> updates b ms = Inr b' \<Longrightarrow> counted b'"
  proof (induction ms arbitrary: b)
    case Nil
    then show ?case by simp
  next
    case (Cons m ms)
    obtain r c v where m: "m = (r, c, v)" by (cases m)
    from Cons.prems(2) obtain xs b1 where
      s: "get_cell (rows b) r c = Inr (Cands xs)" "update b r c v = Inr b1" "all_on_lists b1 ms"
      by (auto simp: m split: sum.splits cell.splits)
    from Cons.prems(3) s(2) have "updates b1 ms = Inr b'" by (simp add: m)
    from Cons.IH[OF counted_update[OF Cons.prems(1) s(1,2)] s(3) this] show ?case .
  qed
  with counted_Board show ?thesis by blast
qed

theorem counter_matches_fixed_cells_witness:
  "counted Board \<and> all_on_lists Board [(0, 0, 1), (0, 1, 2)] \<and>
   map_sum id num_nums_placed (updates Board [(0, 0, 1), (0, 1, 2)]) = Inr 2 \<and>
   map_sum id nfixed (updates Board [(0, 0, 1), (0, 1, 2)]) = Inr 2"
proof -
  have a: "all_on_lists Board [(0, 0, 1), (0, 1, 2)]" by code_simp
  have n: "map_sum id num_nums_placed (updates Board [(0, 0, 1), (0, 1, 2)]) = Inr 2" by code_simp
  then obtain b' where b': "updates Board [(0, 0, 1), (0, 1, 2)] = Inr b'" "num_nums_placed b' = 2"
    by (cases "updates Board [(0, 0, 1), (0, 1, 2)]") auto
  from counter_matches_fixed_cells[of Board "[(0, 0, 1), (0, 1, 2)]" b'] a b'(1)
  have "counted Board" "counted b'" by simp_all
  with b' a n show ?thesis by (simp add: counted_def)
qed

text \<open>
  C3 as stated fails: assigning the same cell twice counts two placements for one
  cell that holds a number.
\<close>

theorem counter_matches_fixed_cells_counterexample:
  "map_sum id num_nums_placed (updates Board [(0, 0, 1), (0, 0, 2)]) = Inr 2 \<and>
   map_sum id nfixed (updates Board [(0, 0, 1), (0, 0, 2)]) = Inr 1"
  by code_simp

lemma first_index_Cons:
  assumes "k < length ps" "ps ! k = q" "Q p" "\<forall>k'<k. Q (ps ! k')"
  shows "\<exists>k<length (p # ps). (p # ps) ! k = q \<and> (\<forall>k'<k. Q ((p # ps) ! k'))"
proof (intro exI[of _ "Suc k"] conjI allI impI)
  show "Suc k < length (p # ps)" using assms(1) by simp
  show "(p # ps) ! Suc k = q" using assms(2) by simp
  fix k' assume "k' < Suc k"
  then show "Q ((p # ps) ! k')" using assms(3,4) by (cases k') auto
qed

lemma mcc_scan_spec:
  assumes "grid rs" "\<forall>p\<in>set ps. fst p < 9 \<and> snd p < 9"
  shows "\<exists>m r c. mcc_scan rs ps (m0, r0, c0) = Inr (m, r, c) \<and> m \<le> m0 \<and>
           (\<forall>p\<in>set ps. at_least rs m p) \<and>
           (m = m0 \<longrightarrow> r = r0 \<and> c = c0) \<and>
           (m < m0 \<longrightarrow> (\<exists>k<length ps. ps ! k = (r, c) \<and>
               (\<exists>xs. rs ! r ! c = Cands xs \<and> length xs = m) \<and>
               (\<forall>k'<k. longer_than rs m (ps ! k'))))"
  using assms(2)
proof (induction ps arbitrary: m0 r0 c0)
  case Nil
  then show ?case by simp
next
  case (Cons p ps)
  obtain i j where p: "p = (i, j)" by (cases p)
  with Cons.prems have ij: "i < 9" "j < 9" and rest: "\<forall>p\<in>set ps. fst p < 9 \<and> snd p < 9" by auto
  note gc = grid_get_cell[OF assms(1) ij]
  show ?case
  proof (cases "\<exists>xs. rs ! i ! j = Cands xs \<and> length xs < m0")
    case True
    then obtain xs where xs: "rs ! i ! j = Cands xs" "length xs < m0" by blast
    from Cons.IH[OF rest, of "length xs" i j] obtain m r c where
      ih: "mcc_scan rs ps (length xs, i, j) = Inr (m, r, c)" "m \<le> length xs"
        "\<forall>p\<in>set ps. at_least rs m p"
        "m = length xs \<longrightarrow> r = i \<and> c = j"
        "m < length xs \<longrightarrow> (\<exists>k<length ps. ps ! k = (r, c) \<and>
               (\<exists>xs. rs ! r ! c = Cands xs \<and> length xs = m) \<and>
               (\<forall>k'<k. longer_than rs m (ps ! k')))"
      by blast
    have run: "mcc_scan rs (p # ps) (m0, r0, c0) = Inr (m, r, c)"
      using ih(1) xs by (simp add: p gc)
    have lt: "m < m0" using ih(2) xs(2) by simp
    have al: "\<forall>q\<in>set (p # ps). at_least rs m q"
      using ih(2,3) xs(1) by (simp add: p at_least_def)
    have idx: "\<exists>k<length (p # ps). (p # ps) ! k = (r, c) \<and>
               (\<exists>xs. rs ! r ! c = Cands xs \<and> length xs = m) \<and>
               (\<forall>k'<k. longer_than rs m ((p # ps) ! k'))"
    proof (cases "m = length xs")
      case True
      with ih(4) xs(1) show ?thesis by (intro exI[of _ 0]) (simp add: p)
    next
      case False
      with ih(2,5) obtain k where
        k: "k < length ps" "ps ! k = (r, c)" "\<exists>xs. rs ! r ! c = Cands xs \<and> length xs = m"
           "\<forall>k'<k. longer_than rs m (ps ! k')"
        by auto
      have "longer_than rs m p" using False ih(2) xs(1) by (simp add: p longer_than_def)
      from first_index_Cons[OF k(1,2) this k(4)] k(3) show ?thesis by blast
    qed
    from run lt al idx show ?thesis by auto
  next
    case False
    then have skip: "mcc_scan rs (p # ps) (m0, r0, c0) = mcc_scan rs ps (m0, r0, c0)"
      by (cases "rs ! i ! j") (auto simp: p gc)
    from False have here: "at_least rs m0 p"
      by (auto simp: p at_least_def)
    from Cons.IH[OF rest, of m0 r0 c0] obtain m r c where
      ih: "mcc_scan rs ps (m0, r0, c0) = Inr (m, r, c)" "m \<le> m0"
        "\<forall>p\<in>set ps. at_least rs m p"
        "m = m0 \<longrightarrow> r = r0 \<and> c = c0"
        "m < m0 \<longrightarrow> (\<exists>k<length ps. ps ! k = (r, c) \<and>
               (\<exists>xs. rs ! r ! c = Cands xs \<and> length xs = m) \<and>
               (\<forall>k'<k. longer_than rs m (ps ! k')))"
      by blast
    have al: "\<forall>q\<in>set (p # ps). at_least rs m q"
      using ih(2,3) here by (auto simp: at_least_def)
    have idx: "\<exists>k<length (p # ps). (p # ps) ! k = (r, c) \<and>
               (\<exists>xs. rs ! r ! c = Cands xs \<and> length xs = m) \<and>
               (\<forall>k'<k. longer_than rs m ((p # ps) ! k'))" if "m < m0"
    proof -
      from ih(5) that obtain k where
        k: "k < length ps" "ps ! k = (r, c)" "\<exists>xs. rs ! r ! c = Cands xs \<and> length xs = m"
           "\<forall>k'<k. longer_than rs m (ps ! k')"
        by auto
      have "longer_than rs m p" using here that by (auto simp: longer_than_def at_least_def)
      from first_index_Cons[OF k(1,2) this k(4)] k(3) show ?thesis by blast
    qed
    from skip ih(1,2,4) al idx show ?thesis by auto
  qed
qed

lemma cell_ok_length: 
  assumes "cell_ok (Cands xs)"
  shows "length xs \<le> 9"
proof -
  from assms have d: "distinct xs" and s: "set xs \<subseteq> {1..9}" by (simp_all add: strict_sorted_iff)
  have "card (set xs) \<le> card {1..9::int}" using s by (intro card_mono) simp_all
  with d show ?thesis by (simp add: distinct_card)
qed

lemma cell_ok_missing:
  assumes "cell_ok (Cands xs)" "1 \<le> n" "n \<le> 9" "n \<notin> set xs"
  shows "length xs < 9"
proof -
  from assms(1) have d: "distinct xs" and s: "set xs \<subseteq> {1..9}" by (simp_all add: strict_sorted_iff)
  from s assms(4) have "set xs \<subseteq> {1..9} - {n}" by blast
  then have "card (set xs) \<le> card ({1..9::int} - {n})" by (intro card_mono) simp_all
  also have "\<dots> = 8" using assms(2,3) by simp
  finally show ?thesis using d by (simp add: distinct_card)
qed

lemma no_list_beside_number:
  assumes "cells_ok b" "propagated b"
    "\<forall>i<9. \<forall>j<9. \<forall>zs. rows b ! i ! j = Cands zs \<longrightarrow> 9 \<le> length zs"
    "i < 9" "j < 9" "i' < 9" "j' < 9" "peer i j i' j'" "rows b ! i ! j = Val n"
  shows "is_Val (rows b ! i' ! j')"
proof (cases "rows b ! i' ! j'")
  case (Val m)
  then show ?thesis by simp
next
  case (Cands zs)
  from assms(2,4-9) Cands have "n \<notin> set zs" unfolding propagated_def by blast
  moreover from assms(1,4,5,9) have "1 \<le> n \<and> n \<le> 9" unfolding cells_ok_def by (metis cell_ok.simps(1))
  moreover from assms(1,6,7) Cands have "cell_ok (Cands zs)" unfolding cells_ok_def by metis
  ultimately have "length zs < 9" using cell_ok_missing by blast
  with assms(3,6,7) Cands show ?thesis by fastforce
qed

lemma origin_holds_list:
  assumes "cells_ok b" "propagated b"
    "\<forall>i<9. \<forall>j<9. \<forall>zs. rows b ! i ! j = Cands zs \<longrightarrow> 9 \<le> length zs"
    "i < 9" "j < 9" "rows b ! i ! j = Cands ys"
  shows "\<exists>xs. rows b ! 0 ! 0 = Cands xs"
proof (cases "rows b ! 0 ! 0")
  case (Cands xs)
  then show ?thesis by simp
next
  case (Val n)
  have "is_Val (rows b ! 0 ! j)"
    by (rule no_list_beside_number[OF assms(1-3) _ _ _ assms(5) _ Val]) (simp_all add: peer_def)
  then obtain w where w: "rows b ! 0 ! j = Val w" by (cases "rows b ! 0 ! j") auto
  have "is_Val (rows b ! i ! j)"
    by (rule no_list_beside_number[OF assms(1-3) _ assms(5) assms(4,5) _ w]) (simp_all add: peer_def)
  with assms(6) show ?thesis by simp
qed

lemma product_index:
  assumes "i < 9" "j < 9"
  shows "List.product [0..<9] [0..<9] ! (i * 9 + j) = (i, j)"
proof -
  have "i * 9 + j < 9 * 9" using assms by simp
  then have "i * 9 + j < length [0..<9] * length [0..<9]" by simp
  from product_nth[OF this] assms show ?thesis by simp
qed

lemma product_index_inv:
  assumes "k < length (List.product [0..<9] [0..<9])" "List.product [0..<9] [0..<9] ! k = (r, c)"
  shows "r < 9 \<and> c < 9 \<and> k = r * 9 + c"
proof -
  from assms(1) have k: "k < length [0..<9] * length [0..<9]" by simp
  then have "k div 9 < 9" by (simp add: div_less_iff_less_mult)
  with product_nth[OF k] assms(2) show ?thesis by simp
qed

lemma mcc_first_minimum:
  assumes "well_formed b" "i0 < 9" "j0 < 9" "rows b ! i0 ! j0 = Cands ys0"
  shows "\<exists>r c xs. find_most_constrained_cell b = Inr (r, c) \<and> r < 9 \<and> c < 9 \<and>
           rows b ! r ! c = Cands xs \<and>
           (\<forall>i<9. \<forall>j<9. \<forall>ys. rows b ! i ! j = Cands ys \<longrightarrow>
              length xs \<le> length ys \<and>
              ((i < r \<or> (i = r \<and> j < c)) \<longrightarrow> length xs < length ys))"
proof -
  from assms(1) have sz: "size_attr b = 9" and g: "grid (rows b)" and ok: "cells_ok b"
    and pr: "propagated b"
    by (simp_all add: well_formed_def shape_ok_def)
  let ?ps = "List.product [0..<9] [0..<9]"
  have inr: "\<forall>p\<in>set ?ps. fst p < 9 \<and> snd p < 9" by auto
  from mcc_scan_spec[OF g inr, of 9 0 0] obtain m r c where
    sc: "mcc_scan (rows b) ?ps (9, 0, 0) = Inr (m, r, c)" "m \<le> 9"
      "\<forall>p\<in>set ?ps. at_least (rows b) m p"
      "m = 9 \<longrightarrow> r = 0 \<and> c = 0"
      "m < 9 \<longrightarrow> (\<exists>k<length ?ps. ?ps ! k = (r, c) \<and>
               (\<exists>xs. rows b ! r ! c = Cands xs \<and> length xs = m) \<and>
               (\<forall>k'<k. longer_than (rows b) m (?ps ! k')))"
    by blast
  have res: "find_most_constrained_cell b = Inr (r, c)"
    by (simp add: find_most_constrained_cell_def sz sc(1))
  have al: "m \<le> length ys" if "i < 9" "j < 9" "rows b ! i ! j = Cands ys" for i j ys
  proof -
    have "(i, j) \<in> set ?ps" using that(1,2) by simp
    with sc(3) have "at_least (rows b) m (i, j)" by blast
    with that(3) show ?thesis by (simp add: at_least_def)
  qed
  show ?thesis
  proof (cases "m < 9")
    case True
    with sc(5) obtain k xs where
      k: "k < length ?ps" "?ps ! k = (r, c)" "rows b ! r ! c = Cands xs" "length xs = m"
         "\<forall>k'<k. longer_than (rows b) m (?ps ! k')"
      by blast
    from product_index_inv[OF k(1,2)] have rc: "r < 9" "c < 9" "k = r * 9 + c" by simp_all
    have first: "length xs < length ys"
      if "i < 9" "j < 9" "rows b ! i ! j = Cands ys" "i < r \<or> (i = r \<and> j < c)" for i j ys
    proof -
      from that(2,4) have "i * 9 + j < k" unfolding rc(3) by auto
      with k(5) have "longer_than (rows b) m (?ps ! (i * 9 + j))" by blast
      then have "longer_than (rows b) m (i, j)" by (simp only: product_index[OF that(1,2)])
      with that(3) k(4) show ?thesis by (simp add: longer_than_def)
    qed
    from res rc(1,2) k(3) al first show ?thesis unfolding k(4)[symmetric] by blast
  next
    case False
    with sc(2,4) have m: "m = 9" and rc: "r = 0" "c = 0" by simp_all
    have full: "\<forall>i<9. \<forall>j<9. \<forall>zs. rows b ! i ! j = Cands zs \<longrightarrow> 9 \<le> length zs"
      using al unfolding m by blast
    from origin_holds_list[OF ok pr full assms(2-4)] obtain xs where xs: "rows b ! 0 ! 0 = Cands xs"
      by blast
    from ok xs have "cell_ok (Cands xs)" unfolding cells_ok_def by (metis zero_less_numeral)
    from cell_ok_length[OF this] have le: "length xs \<le> 9" .
    have "length xs \<le> length ys" if "i < 9" "j < 9" "rows b ! i ! j = Cands ys" for i j ys
      using le al[OF that] unfolding m by simp
    with res xs show ?thesis unfolding rc by (intro exI[of _ 0] exI[of _ xs]) simp
  qed
qed

text \<open>
  C2. On a board of the spec's data model with at least one cell that holds a list,
  \<^verbatim>\<open>find_most_constrained_cell\<close> returns the coordinates of a cell that holds a list,
  no list on the board is shorter, and every list met earlier in row-major order is
  strictly longer.
\<close>

theorem find_most_constrained_cell_first_minimum:
  assumes "well_formed b" "i0 < 9" "j0 < 9" "rows b ! i0 ! j0 = Cands ys0"
  shows "\<exists>r c xs. find_most_constrained_cell b = Inr (r, c) \<and> r < 9 \<and> c < 9 \<and>
           rows b ! r ! c = Cands xs \<and>
           (\<forall>i<9. \<forall>j<9. \<forall>ys. rows b ! i ! j = Cands ys \<longrightarrow>
              length xs \<le> length ys \<and>
              ((i < r \<or> (i = r \<and> j < c)) \<longrightarrow> length xs < length ys))"
  using assms by (rule mcc_first_minimum)

lemma well_formed_Board: "well_formed Board"
  by (simp add: well_formed_def Board_shape Board_cells_ok Board_propagated)

lemma well_formed_update:
  assumes "well_formed b" "r < 9" "c < 9" "1 \<le> v" "v \<le> 9" "update b r c v = Inr b'"
  shows "well_formed b'"
proof -
  from assms(1) have s: "shape_ok b" and ok: "cells_ok b" and pr: "propagated b"
    by (simp_all add: well_formed_def)
  from shape_ok_update[OF s assms(2,3,6)] cells_ok_update[OF s ok assms(2-6)]
    propagated_update[OF s cells_ok_distinct[OF ok] pr assms(2,3,6)]
  show ?thesis by (simp add: well_formed_def)
qed

theorem find_most_constrained_cell_first_minimum_witness:
  "\<exists>b. update Board 0 0 1 = Inr b \<and> well_formed b \<and>
       rows b ! 4 ! 0 = Cands [2, 3, 4, 5, 6, 7, 8, 9] \<and>
       find_most_constrained_cell b = Inr (0, 1) \<and>
       (\<exists>r c xs. find_most_constrained_cell b = Inr (r, c) \<and> r < 9 \<and> c < 9 \<and>
           rows b ! r ! c = Cands xs \<and>
           (\<forall>i<9. \<forall>j<9. \<forall>ys. rows b ! i ! j = Cands ys \<longrightarrow>
              length xs \<le> length ys \<and>
              ((i < r \<or> (i = r \<and> j < c)) \<longrightarrow> length xs < length ys)))"
proof -
  from update_in_range[OF Board_shape, of 0 0 1] obtain b where b: "update Board 0 0 1 = Inr b"
    by auto
  have wf: "well_formed b"
    by (rule well_formed_update[OF well_formed_Board _ _ _ _ b]) simp_all
  have "map_sum id (\<lambda>b. rows b ! 4 ! 0) (update Board 0 0 1) = Inr (Cands [2, 3, 4, 5, 6, 7, 8, 9])"
    by code_simp
  with b have cell: "rows b ! 4 ! 0 = Cands [2, 3, 4, 5, 6, 7, 8, 9]" by simp
  have "(case update Board 0 0 1 of Inl e \<Rightarrow> Inl e | Inr b \<Rightarrow> find_most_constrained_cell b) = Inr (0, 1)"
    by code_simp
  with b have mcc: "find_most_constrained_cell b = Inr (0, 1)" by simp
  from find_most_constrained_cell_first_minimum[OF wf _ _ cell] b wf cell mcc
  show ?thesis by (intro exI[of _ b]) simp
qed


lemma grid_length_concat:
  assumes "grid rs"
  shows "length (concat rs) = 81"
proof -
  have "map length rs = replicate 9 9"
    using assms by (intro nth_equalityI) (simp_all add: grid_def)
  then show ?thesis by (simp add: length_concat sum_list_replicate)
qed

lemma in_concat_nth:
  assumes "x \<in> set (concat rs)"
  shows "\<exists>i<length rs. \<exists>j<length (rs ! i). rs ! i ! j = x"
proof -
  from assms obtain row where row: "row \<in> set rs" "x \<in> set row" by auto
  then obtain i j where "i < length rs" "rs ! i = row" "j < length row" "row ! j = x"
    by (metis in_set_conv_nth)
  then show ?thesis by auto
qed

lemma some_list_cell:
  assumes "shape_ok b" "counted b" "\<not> goal_test b"
  shows "\<exists>i<9. \<exists>j<9. \<exists>xs. rows b ! i ! j = Cands xs"
proof -
  from assms(1) have sz: "size_attr b = 9" and g: "grid (rows b)" by (simp_all add: shape_ok_def)
  from assms(2,3) sz have "nfixed b \<noteq> 81" by (auto simp: counted_def goal_test_def)
  with grid_length_concat[OF g] have "length (filter is_Val (concat (rows b))) \<noteq> length (concat (rows b))"
    by (simp add: nfixed_def)
  then have "\<exists>x\<in>set (concat (rows b)). \<not> is_Val x"
    by (metis filter_True)
  then obtain x where x: "x \<in> set (concat (rows b))" "\<not> is_Val x" by blast
  from in_concat_nth[OF x(1)] g obtain i j where ij: "i < 9" "j < 9" "rows b ! i ! j = x"
    by (auto simp: grid_def)
  from x(2) obtain xs where "x = Cands xs" by (cases x) auto
  with ij show ?thesis by blast
qed

lemma for_possibilities_pushes:
  "map (\<lambda>v. update (deepcopy cur) r c v) xs = map Inr children \<Longrightarrow>
     for_possibilities cur r c xs stack = Inr (rev children @ stack)"
proof (induction xs arbitrary: children stack)
  case Nil
  then show ?case by simp
next
  case (Cons v xs)
  then obtain ch chs where ch: "children = ch # chs" "update (deepcopy cur) r c v = Inr ch"
    "map (\<lambda>v. update (deepcopy cur) r c v) xs = map Inr chs"
    by (cases children) auto
  from Cons.IH[OF ch(3), of "push ch stack"] show ?case by (simp add: ch(1,2) push_def)
qed

lemma DFS_body_expands:
  assumes "well_formed cur" "counted cur" "\<not> goal_test cur" "\<not> failure_test cur"
  shows "\<exists>r c xs children.
           find_most_constrained_cell cur = Inr (r, c) \<and> rows cur ! r ! c = Cands xs \<and>
           sorted_wrt (<) xs \<and> set xs \<subseteq> {1..9} \<and>
           map (\<lambda>v. update (deepcopy cur) r c v) xs = map Inr children \<and>
           DFS_body cur stack = Next (rev children @ stack)"
proof -
  from assms(1) have s: "shape_ok cur" and ok: "cells_ok cur" by (simp_all add: well_formed_def)
  from some_list_cell[OF s assms(2,3)] obtain i0 j0 ys0 where
    c0: "i0 < 9" "j0 < 9" "rows cur ! i0 ! j0 = Cands ys0" by blast
  from mcc_first_minimum[OF assms(1) c0] obtain r c xs where
    m: "find_most_constrained_cell cur = Inr (r, c)" "r < 9" "c < 9" "rows cur ! r ! c = Cands xs"
    by blast
  from ok m(2-4) have "cell_ok (Cands xs)" unfolding cells_ok_def by metis
  then have xs: "sorted_wrt (<) xs" "set xs \<subseteq> {1..9}" by simp_all
  have "\<forall>v. \<exists>ch. update cur r c v = Inr ch" using update_in_range[OF s m(2,3)] by blast
  then obtain f where f: "\<And>v. update cur r c v = Inr (f v)" by metis
  define children where "children = map f xs"
  have ch: "map (\<lambda>v. update (deepcopy cur) r c v) xs = map Inr children"
    by (simp add: children_def deepcopy_def f)
  from s have g: "grid (rows cur)" by (simp add: shape_ok_def)
  have "DFS_body cur stack = Next (rev children @ stack)"
    using assms(3,4) m(1,4) for_possibilities_pushes[OF ch, of stack]
    by (simp add: DFS_body_def grid_get_cell[OF g m(2,3)])
  with m(1,4) xs ch show ?thesis by blast
qed

text \<open>
  C5. For a popped board of the spec's data model whose counter is right and that is
  neither a goal nor a failure, the loop body finds a most constrained cell holding an
  ascending list of numbers in 1..9, makes for each number of the list, in list order,
  one child (the copy of the board with that number assigned to the cell), and pushes
  the children in that order, so that the last one is on top.
\<close>

theorem DFS_body_children:
  assumes "well_formed cur" "counted cur" "\<not> goal_test cur" "\<not> failure_test cur"
  shows "\<exists>r c xs children.
           find_most_constrained_cell cur = Inr (r, c) \<and> rows cur ! r ! c = Cands xs \<and>
           sorted_wrt (<) xs \<and> set xs \<subseteq> {1..9} \<and>
           map (\<lambda>v. update (deepcopy cur) r c v) xs = map Inr children \<and>
           DFS_body cur stack = Next (rev children @ stack)"
  using assms by (rule DFS_body_expands)

declare DFS_loop.simps [simp del]

lemma DFS_loop_Nil: "DFS_loop [] = Inr None"
  by (simp add: DFS_loop.simps[of "[]"] is_empty_def)

lemma DFS_loop_Cons:
  "DFS_loop (cur # stack) =
     (case DFS_body cur stack of
        Return b \<Rightarrow> Inr (Some b)
      | Raise e \<Rightarrow> Inl e
      | Next stack'' \<Rightarrow> DFS_loop stack'')"
  by (simp add: DFS_loop.simps[of "cur # stack"] is_empty_def)

lemma DFS_body_Return: "DFS_body cur stack = Return b \<longleftrightarrow> goal_test cur \<and> b = cur"
  by (auto simp: DFS_body_def split: sum.splits cell.splits prod.splits)

lemma DFS_loop_induct:
  assumes "P []"
    and "\<And>cur stack. (\<And>stack'. DFS_body cur stack = Next stack' \<Longrightarrow> P stack') \<Longrightarrow> P (cur # stack)"
  shows "P st"
proof (induction st rule: DFS_loop.induct)
  case (1 stack)
  show ?case
  proof (cases stack)
    case Nil
    with assms(1) show ?thesis by simp
  next
    case (Cons cur rest)
    show ?thesis
      unfolding Cons
    proof (rule assms(2))
      fix stack' assume "DFS_body cur rest = Next stack'"
      then show "P stack'" using "1.IH"[of "(cur, rest)" cur rest stack'] Cons
        by (simp add: is_empty_def)
    qed
  qed
qed

lemma DFS_loop_None_iff: "DFS_loop st = Inr None \<longleftrightarrow> exhausts st"
proof
  show "DFS_loop st = Inr None \<Longrightarrow> exhausts st"
  proof (induction st rule: DFS_loop_induct)
    case 1
    show ?case by (rule exhausts.empty)
  next
    case (2 cur stack)
    from "2.prems" obtain stack' where
      n: "DFS_body cur stack = Next stack'" "DFS_loop stack' = Inr None"
      by (auto simp: DFS_loop_Cons split: step.splits)
    from n(1) have "\<not> goal_test cur" by (auto simp: DFS_body_def split: if_splits)
    from exhausts.step[OF this n(1) "2.IH"[OF n]] show ?case .
  qed
next
  show "exhausts st \<Longrightarrow> DFS_loop st = Inr None"
    by (induction st rule: exhausts.induct) (simp_all add: DFS_loop_Nil DFS_loop_Cons)
qed

lemma DFS_loop_Some: "DFS_loop st = Inr (Some b) \<Longrightarrow> goal_test b"
proof (induction st rule: DFS_loop_induct)
  case 1
  then show ?case by (simp add: DFS_loop_Nil)
next
  case (2 cur stack)
  show ?case
  proof (cases "DFS_body cur stack")
    case (Return b')
    with "2.prems" DFS_body_Return[of cur stack b'] show ?thesis by (simp add: DFS_loop_Cons)
  next
    case (Next stack')
    with "2.prems" "2.IH"[OF Next] show ?thesis by (simp add: DFS_loop_Cons)
  next
    case (Raise e)
    with "2.prems" show ?thesis by (simp add: DFS_loop_Cons)
  qed
qed

lemma Stack_single: "Stack [x] = [x]"
  by (simp add: Stack_def push_def)

text \<open>
  C7. \<^verbatim>\<open>DFS\<close> returns \<^verbatim>\<open>None\<close> (a value, \<open>Inr None\<close>, not an exception \<open>Inl e\<close>) exactly
  when the frontier that starts with the given board runs empty with every popped
  board failing the goal test; and a board it returns passes the goal test.
\<close>

theorem DFS_None_iff_frontier_exhausted:
  "(DFS state = Inr None \<longleftrightarrow> exhausts (Stack [state])) \<and>
   (\<forall>b. DFS state = Inr (Some b) \<longrightarrow> goal_test b)"
  unfolding DFS_def using DFS_loop_None_iff DFS_loop_Some by blast

theorem DFS_None_iff_frontier_exhausted_witness:
  "DFS (Board\<lparr> rows := (rows Board)[0 := (rows Board ! 0)[0 := Cands []]] \<rparr>) = Inr None \<and>
   exhausts (Stack [Board\<lparr> rows := (rows Board)[0 := (rows Board ! 0)[0 := Cands []]] \<rparr>]) \<and>
   DFS (Board\<lparr> num_nums_placed := 81 \<rparr>) = Inr (Some (Board\<lparr> num_nums_placed := 81 \<rparr>)) \<and>
   goal_test (Board\<lparr> num_nums_placed := 81 \<rparr>)"
proof -
  let ?dead = "Board\<lparr> rows := (rows Board)[0 := (rows Board ! 0)[0 := Cands []]] \<rparr>"
  let ?done = "Board\<lparr> num_nums_placed := 81 \<rparr>"
  have d: "DFS ?dead = Inr None"
    by code_simp
  have g: "DFS ?done = Inr (Some ?done)"
    by code_simp
  from DFS_None_iff_frontier_exhausted[of ?dead] DFS_None_iff_frontier_exhausted[of ?done] d g
  show ?thesis by simp
qed

theorem DFS_body_children_witness:
  "\<exists>b. update Board 0 0 1 = Inr b \<and> well_formed b \<and> counted b \<and> \<not> goal_test b \<and> \<not> failure_test b \<and>
     (\<exists>r c xs children.
           find_most_constrained_cell b = Inr (r, c) \<and> rows b ! r ! c = Cands xs \<and>
           sorted_wrt (<) xs \<and> set xs \<subseteq> {1..9} \<and>
           map (\<lambda>v. update (deepcopy b) r c v) xs = map Inr children \<and>
           DFS_body b [] = Next (rev children @ []))"
proof -
  from update_in_range[OF Board_shape, of 0 0 1] obtain b where b: "update Board 0 0 1 = Inr b"
    by auto
  have wf: "well_formed b"
    by (rule well_formed_update[OF well_formed_Board _ _ _ _ b]) simp_all
  have cn: "counted b"
    by (rule counted_update[OF counted_Board _ b, of "map int [1..<10]"])
      (simp add: grid_get_cell Board_shape[unfolded shape_ok_def] Board_cell)
  have "(case update Board 0 0 1 of Inl e \<Rightarrow> False | Inr b \<Rightarrow> \<not> goal_test b \<and> \<not> failure_test b)"
    by code_simp
  with b have t: "\<not> goal_test b" "\<not> failure_test b" by simp_all
  from DFS_body_children[OF wf cn t, of "[]"] b wf cn t show ?thesis
    by (intro exI[of _ b]) simp
qed

lemma goal_all_numbers:
  assumes "shape_ok b" "counted b" "goal_test b" "i < 9" "j < 9"
  shows "is_Val (rows b ! i ! j)"
proof -
  from assms(1) have sz: "size_attr b = 9" and g: "grid (rows b)" by (simp_all add: shape_ok_def)
  from assms(2,3) sz have "nfixed b = 81" by (auto simp: counted_def goal_test_def)
  with grid_length_concat[OF g] sum_length_filter_compl[of is_Val "concat (rows b)"]
  have "length (filter (\<lambda>x. \<not> is_Val x) (concat (rows b))) = 0" by (simp add: nfixed_def)
  then have all: "\<forall>x\<in>set (concat (rows b)). is_Val x" by (simp add: filter_empty_conv)
  from g assms(4,5) have "rows b ! i \<in> set (rows b)" "rows b ! i ! j \<in> set (rows b ! i)"
    by (simp_all add: grid_def)
  then have "rows b ! i ! j \<in> set (concat (rows b))" by auto
  with all show ?thesis by blast
qed

lemma row_holds_every_number:
  assumes "\<forall>j<9. \<exists>n. row ! j = Val n \<and> 1 \<le> n \<and> n \<le> 9"
    "\<forall>j<9. \<forall>j'<9. j \<noteq> j' \<longrightarrow> row ! j \<noteq> row ! j'"
    "length row = 9" "1 \<le> v" "v \<le> 9"
  shows "\<exists>j<9. row ! j = Val v"
proof -
  have d: "distinct row" using assms(2,3) by (simp add: distinct_conv_nth)
  have sub: "set row \<subseteq> Val ` {1..9}"
  proof
    fix x assume "x \<in> set row"
    then obtain j where "j < 9" "row ! j = x" using assms(3) by (auto simp: in_set_conv_nth)
    with assms(1) show "x \<in> Val ` {1..9}" by auto
  qed
  have "card (Val ` {1..9::int}) = 9" by (simp add: card_image inj_on_def)
  moreover have "card (set row) = 9" using d assms(3) by (simp add: distinct_card)
  ultimately have "set row = Val ` {1..9}" using sub by (intro card_subset_eq) simp_all
  with assms(4,5) have "Val v \<in> set row" by auto
  then show ?thesis using assms(3) by (auto simp: in_set_conv_nth)
qed

lemma doomed_not_goal:
  assumes "doomed r c1 c2 v b"
  shows "\<not> goal_test b"
proof
  assume goal: "goal_test b"
  from assms have wf: "well_formed b" and cn: "counted b" and r: "r < 9" and c: "c1 < 9" "c2 < 9" "c1 \<noteq> c2"
    and seed: "rows b ! r ! c1 = Val v" "rows b ! r ! c2 = Val v"
    by (simp_all add: doomed_def)
  have cl: "i = r \<and> i' = r" if "i < 9" "j < 9" "i' < 9" "j' < 9" "clash b i j i' j'" for i j i' j'
    using assms that unfolding doomed_def by blast
  from wf have s: "shape_ok b" and ok: "cells_ok b" by (simp_all add: well_formed_def)
  from s have g: "grid (rows b)" by (simp add: shape_ok_def)
  have num: "\<exists>n. rows b ! i ! j = Val n \<and> 1 \<le> n \<and> n \<le> 9" if "i < 9" "j < 9" for i j
  proof -
    from goal_all_numbers[OF s cn goal that] obtain n where n: "rows b ! i ! j = Val n"
      by (cases "rows b ! i ! j") auto
    from ok that have "cell_ok (rows b ! i ! j)" by (simp add: cells_ok_def)
    with n show ?thesis by simp
  qed
  from num[OF r c(1)] seed(1) have v: "1 \<le> v" "v \<le> 9" by simp_all
  have col: "i = i'" if "i < 9" "i' < 9" "j < 9" "rows b ! i ! j = Val n" "rows b ! i' ! j = Val n" for i i' j n
  proof (rule ccontr)
    assume "i \<noteq> i'"
    with that have "clash b i j i' j" by (auto simp: clash_def peer_def)
    from cl[OF that(1,3,2,3) this] \<open>i \<noteq> i'\<close> show False by simp
  qed
  have ex: "\<exists>j<9. rows b ! i ! j = Val v" if i: "i < 9" "i \<noteq> r" for i
  proof (rule row_holds_every_number[OF _ _ _ v])
    show "\<forall>j<9. \<exists>n. rows b ! i ! j = Val n \<and> 1 \<le> n \<and> n \<le> 9" using num[OF i(1)] by blast
    show "length (rows b ! i) = 9" using g i(1) by (simp add: grid_def)
    show "\<forall>j<9. \<forall>j'<9. j \<noteq> j' \<longrightarrow> rows b ! i ! j \<noteq> rows b ! i ! j'"
    proof (intro allI impI notI)
      fix j j' assume a: "j < 9" "j' < 9" "j \<noteq> j'" "rows b ! i ! j = rows b ! i ! j'"
      from num[OF i(1) a(1)] a(4) have "clash b i j i j'" using a(3) by (auto simp: clash_def peer_def)
      from cl[OF i(1) a(1) i(1) a(2) this] i(2) show False by simp
    qed
  qed
  then obtain f where f: "\<And>i. i < 9 \<Longrightarrow> i \<noteq> r \<Longrightarrow> f i < 9 \<and> rows b ! i ! f i = Val v"
    by metis
  let ?A = "{i. i < 9 \<and> i \<noteq> r}" and ?B = "{j. j < 9 \<and> j \<noteq> c1 \<and> j \<noteq> c2}"
  have inj: "inj_on f ?A"
  proof (rule inj_onI)
    fix i i' assume a: "i \<in> ?A" "i' \<in> ?A" "f i = f i'"
    from a(1) f[of i] have 1: "rows b ! i ! f i = Val v" "f i < 9" "i < 9" by simp_all
    from a(2) f[of i'] have 2: "rows b ! i' ! f i' = Val v" "i' < 9" by simp_all
    from 2(1) a(3) have 3: "rows b ! i' ! f i = Val v" by simp
    from col[OF 1(3) 2(2) 1(2) 1(1) 3] show "i = i'" .
  qed
  have img: "f ` ?A \<subseteq> ?B"
  proof
    fix j assume "j \<in> f ` ?A"
    then obtain i where i: "i < 9" "i \<noteq> r" "j = f i" by auto
    with f have fi: "j < 9" "rows b ! i ! j = Val v" by auto
    have "j \<noteq> c1" using col[OF i(1) r fi(1) fi(2)] seed(1) i(2) by auto
    moreover have "j \<noteq> c2" using col[OF i(1) r fi(1) fi(2)] seed(2) i(2) by auto
    ultimately show "j \<in> ?B" using fi(1) by simp
  qed
  have A: "?A = {..<9} - {r}" and B: "?B = {..<9} - {c1, c2}" by auto
  have "card ?A = 8" unfolding A using r by simp
  moreover have "card ?B = 7" unfolding B using c by simp
  moreover have "card ?A \<le> card ?B" using inj img by (intro card_inj_on_le) auto
  ultimately show False by simp
qed

lemma doomed_child:
  assumes "doomed r c1 c2 v b" "r' < 9" "c' < 9" "rows b ! r' ! c' = Cands xs" "w \<in> set xs"
    "update b r' c' w = Inr b'"
  shows "doomed r c1 c2 v b'"
proof -
  from assms(1) have wf: "well_formed b" and cn: "counted b" and r: "r < 9" and c: "c1 < 9" "c2 < 9" "c1 \<noteq> c2"
    and seed: "rows b ! r ! c1 = Val v" "rows b ! r ! c2 = Val v"
    by (simp_all add: doomed_def)
  have cl: "i = r \<and> i' = r" if "i < 9" "j < 9" "i' < 9" "j' < 9" "clash b i j i' j'" for i j i' j'
    using assms(1) that unfolding doomed_def by blast
  from wf have s: "shape_ok b" and ok: "cells_ok b" and pr: "propagated b"
    by (simp_all add: well_formed_def)
  from s have g: "grid (rows b)" by (simp add: shape_ok_def)
  from ok assms(2-4) have "cell_ok (Cands xs)" unfolding cells_ok_def by metis
  with assms(5) have w: "1 \<le> w" "w \<le> 9" by auto
  have wf': "well_formed b'" by (rule well_formed_update[OF wf assms(2,3) w assms(6)])
  have cn': "counted b'"
    by (rule counted_update[OF cn _ assms(6), of xs]) (simp add: grid_get_cell[OF g assms(2,3)] assms(4))
  from update_explicit[OF s cells_ok_distinct[OF ok] assms(2,3), of w] assms(6) have
    cells: "\<And>i j. i < 9 \<Longrightarrow> j < 9 \<Longrightarrow> rows b' ! i ! j = assigned b r' c' w i j" by auto
  have keep: "rows b' ! i ! j = Val n" if "i < 9" "j < 9" "rows b ! i ! j = Val n" for i j n
  proof -
    from that(3) assms(4) have "i \<noteq> r' \<or> j \<noteq> c'" by auto
    with that(3) cells[OF that(1,2)] show ?thesis by (auto simp: assigned_def)
  qed
  have new: "(i = r' \<and> j = c' \<and> n = w) \<or> rows b ! i ! j = Val n"
    if "i < 9" "j < 9" "rows b' ! i ! j = Val n" for i j n
    using assigned_Val[of b r' c' w i j n] cells[OF that(1,2)] that(3) by auto
  have fresh: False if "i < 9" "j < 9" "peer r' c' i j" "rows b ! i ! j = Val w" for i j
  proof -
    from that(3) have "peer i j r' c'" by (simp add: peer_sym)
    with pr that(1,2,4) assms(2-4) have "w \<notin> set xs" unfolding propagated_def by blast
    with assms(5) show False by simp
  qed
  have cl': "i = r \<and> i' = r" if a: "i < 9" "j < 9" "i' < 9" "j' < 9" "clash b' i j i' j'" for i j i' j'
  proof -
    from a(5) obtain n where n: "i \<noteq> i' \<or> j \<noteq> j'" "peer i j i' j'"
      "rows b' ! i ! j = Val n" "rows b' ! i' ! j' = Val n"
      by (auto simp: clash_def)
    from new[OF a(1,2) n(3)] new[OF a(3,4) n(4)] show ?thesis
    proof (elim disjE conjE)
      assume "i = r'" "j = c'" "n = w" "i' = r'" "j' = c'"
      with n(1) show ?thesis by simp
    next
      assume "i = r'" "j = c'" "n = w" "rows b ! i' ! j' = Val n"
      with fresh[OF a(3,4)] n(2) show ?thesis by simp
    next
      assume "rows b ! i ! j = Val n" "i' = r'" "j' = c'" "n = w"
      with fresh[OF a(1,2)] n(2) show ?thesis by (simp add: peer_sym)
    next
      assume "rows b ! i ! j = Val n" "rows b ! i' ! j' = Val n"
      with n(1,2) have "clash b i j i' j'" by (auto simp: clash_def)
      from cl[OF a(1-4) this] show ?thesis .
    qed
  qed
  from wf' cn' r c keep[OF r c(1) seed(1)] keep[OF r c(2) seed(2)] cl' show ?thesis
    unfolding doomed_def by blast
qed

lemma doomed_exhausts:
  assumes "\<forall>b\<in>set st. doomed r c1 c2 v b"
  shows "DFS_loop st = Inr None"
  using assms
proof (induction st rule: DFS_loop_induct)
  case 1
  show ?case by (rule DFS_loop_Nil)
next
  case (2 cur stack)
  from "2.prems" have d: "doomed r c1 c2 v cur" and rest: "\<forall>b\<in>set stack. doomed r c1 c2 v b"
    by simp_all
  from d have wf: "well_formed cur" and cn: "counted cur" by (simp_all add: doomed_def)
  note ng = doomed_not_goal[OF d]
  show ?case
  proof (cases "failure_test cur")
    case True
    with ng have n: "DFS_body cur stack = Next stack" by (simp add: DFS_body_def)
    from "2.IH"[OF n rest] n show ?thesis by (simp add: DFS_loop_Cons)
  next
    case False
    from DFS_body_expands[OF wf cn ng False, of stack] obtain r' c' xs children where
      e: "find_most_constrained_cell cur = Inr (r', c')" "rows cur ! r' ! c' = Cands xs"
        "map (\<lambda>w. update (deepcopy cur) r' c' w) xs = map Inr children"
        "DFS_body cur stack = Next (rev children @ stack)"
      by blast
    from wf have g: "grid (rows cur)" by (simp add: well_formed_def shape_ok_def)
    from mcc_first_minimum[OF wf] some_list_cell[OF _ cn ng] wf e(1)
    have rc: "r' < 9" "c' < 9" by (auto simp: well_formed_def)
    have "doomed r c1 c2 v ch" if "ch \<in> set children" for ch
    proof -
      from that obtain k where k: "k < length children" "children ! k = ch"
        by (auto simp: in_set_conv_nth)
      from e(3) have len: "length xs = length children" by (metis length_map)
      from e(3) k len have "update (deepcopy cur) r' c' (xs ! k) = Inr ch"
        by (metis nth_map)
      then have u: "update cur r' c' (xs ! k) = Inr ch" by (simp add: deepcopy_def)
      have "xs ! k \<in> set xs" using k(1) len by simp
      from doomed_child[OF d rc e(2) this u] show ?thesis .
    qed
    with rest have "\<forall>b\<in>set (rev children @ stack). doomed r c1 c2 v b" by auto
    from "2.IH"[OF e(4) this] e(4) show ?thesis by (simp add: DFS_loop_Cons)
  qed
qed

lemma seeded_doomed:
  assumes "r < 9" "c1 < 9" "c2 < 9" "c1 \<noteq> c2" "1 \<le> v" "v \<le> 9"
    "update Board r c1 v = Inr b1" "update b1 r c2 v = Inr b2"
  shows "doomed r c1 c2 v b2"
proof -
  note wf0 = well_formed_Board
  have wf1: "well_formed b1" by (rule well_formed_update[OF wf0 assms(1,2,5,6,7)])
  have wf2: "well_formed b2" by (rule well_formed_update[OF wf1 assms(1,3,5,6,8)])
  from wf1 have s1: "shape_ok b1" and ok1: "cells_ok b1" by (simp_all add: well_formed_def)
  from s1 have g1: "grid (rows b1)" by (simp add: shape_ok_def)
  from update_explicit[OF Board_shape Board_distinct assms(1,2), of v] assms(7) have
    cells1: "\<And>i j. i < 9 \<Longrightarrow> j < 9 \<Longrightarrow> rows b1 ! i ! j = assigned Board r c1 v i j" by auto
  from update_explicit[OF s1 cells_ok_distinct[OF ok1] assms(1,3), of v] assms(8) have
    cells2: "\<And>i j. i < 9 \<Longrightarrow> j < 9 \<Longrightarrow> rows b2 ! i ! j = assigned b1 r c2 v i j" by auto
  have cn1: "counted b1"
    by (rule counted_update[OF counted_Board _ assms(7), of "map int [1..<10]"])
      (simp add: grid_get_cell[OF Board_shape[unfolded shape_ok_def, THEN conjunct2] assms(1,2)]
        Board_cell[OF assms(1,2)])
  have t1: "rows b1 ! r ! c1 = Val v" using cells1[OF assms(1,2)] by (simp add: assigned_def)
  have t2: "rows b1 ! r ! c2 = Cands (remove1 v (map int [1..<10]))"
    using cells1[OF assms(1,3)] assms(4)
    by (simp add: assigned_def peer_def Board_cell[OF assms(1,3)] remove_if_exists_Cands
        del: remove_if_exists.simps)
  have cn2: "counted b2"
    by (rule counted_update[OF cn1 _ assms(8), of "remove1 v (map int [1..<10])"])
      (simp add: grid_get_cell[OF g1 assms(1,3)] t2)
  have seed2: "rows b2 ! r ! c2 = Val v" using cells2[OF assms(1,3)] by (simp add: assigned_def)
  have seed1: "rows b2 ! r ! c1 = Val v"
    using cells2[OF assms(1,2)] assms(4) t1 by (simp add: assigned_def peer_def)
  have row: "i = r" if "i < 9" "j < 9" "rows b2 ! i ! j = Val n" for i j n
  proof -
    from assigned_Val[of b1 r c2 v i j n] cells2[OF that(1,2)] that(3)
    consider "i = r" | "rows b1 ! i ! j = Val n" by auto
    then show ?thesis
    proof cases
      case 1
      then show ?thesis .
    next
      case 2
      from assigned_Val[of Board r c1 v i j n] cells1[OF that(1,2)] 2
      show ?thesis by (auto simp: Board_cell[OF that(1,2)])
    qed
  qed
  have "\<forall>i<9. \<forall>j<9. \<forall>i'<9. \<forall>j'<9. clash b2 i j i' j' \<longrightarrow> i = r \<and> i' = r"
    using row unfolding clash_def by blast
  with wf2 cn2 assms(1-4) seed1 seed2 show ?thesis unfolding doomed_def by blast
qed

text \<open>
  C4. Seed a fresh board with the same number \<open>v\<close> of 1..9 in two different cells of
  one row. Both \<^verbatim>\<open>update\<close> calls return, and \<^verbatim>\<open>DFS\<close> on the seeded board returns
  \<^verbatim>\<open>None\<close>: the frontier runs empty and no popped board passes the goal test.
\<close>

theorem DFS_fails_on_repeated_seed:
  assumes "r < 9" "c1 < 9" "c2 < 9" "c1 \<noteq> c2" "1 \<le> v" "v \<le> 9"
  shows "\<exists>b. updates Board [(r, c1, v), (r, c2, v)] = Inr b \<and> DFS b = Inr None \<and>
             exhausts (Stack [b])"
proof -
  from update_in_range[OF Board_shape assms(1,2), of v] obtain b1 where
    b1: "update Board r c1 v = Inr b1" by blast
  from shape_ok_update[OF Board_shape assms(1,2) b1] update_in_range[OF _ assms(1,3), of b1 v]
  obtain b2 where b2: "update b1 r c2 v = Inr b2" by blast
  have d: "doomed r c1 c2 v b2" by (rule seeded_doomed[OF assms b1 b2])
  then have none: "DFS_loop [b2] = Inr None" by (intro doomed_exhausts[of _ r c1 c2 v]) simp
  then have "exhausts [b2]" by (simp add: DFS_loop_None_iff)
  with none b1 b2 show ?thesis by (simp add: DFS_def Stack_single)
qed

theorem DFS_fails_on_repeated_seed_witness:
  "\<exists>b. updates Board [(4, 2, 7), (4, 6, 7)] = Inr b \<and> DFS b = Inr None \<and> exhausts (Stack [b])"
  using DFS_fails_on_repeated_seed[of 4 2 6 7] by simp

lemma same_below_refl: "same_below n h h"
  by (simp add: same_below_def)

lemma same_below_trans: "same_below n h h1 \<Longrightarrow> same_below n h1 h2 \<Longrightarrow> same_below n h h2"
  by (simp add: same_below_def)

lemma closed_write:
  assumes "closed_from n h" "n \<le> a" "\<forall>a'\<in>refs x. n \<le> a'"
  shows "closed_from n (h[a := x])" "same_below n h (h[a := x])"
proof -
  have *: "n \<le> a'" if "n \<le> k" "k < length h" "a' \<in> refs (h[a := x] ! k)" for k a'
  proof (cases "k = a")
    case True
    with that assms(3) show ?thesis by simp
  next
    case False
    with that have "a' \<in> refs (h ! k)" by simp
    with that(1,2) assms(1) show ?thesis unfolding closed_from_def by blast
  qed
  show "closed_from n (h[a := x])"
    unfolding closed_from_def
  proof (intro conjI allI impI ballI)
    show "n \<le> length (h[a := x])" using assms(1) by (simp add: closed_from_def)
    fix k a' assume "n \<le> k \<and> k < length (h[a := x])" "a' \<in> refs (h[a := x] ! k)"
    then show "n \<le> a'" using *[of k a'] by simp
  qed
  show "same_below n h (h[a := x])"
    using assms(2) by (simp add: same_below_def)
qed

lemma closed_alloc:
  assumes "closed_from n h" "\<forall>a'\<in>refs x. n \<le> a'"
  shows "closed_from n (h @ [x])" "same_below n h (h @ [x])"
proof -
  show "closed_from n (h @ [x])"
    using assms unfolding closed_from_def by (auto simp: nth_append)
  show "same_below n h (h @ [x])"
    using assms(1) by (simp add: same_below_def closed_from_def)
qed

lemma closed_lookup:
  assumes "closed_from n h" "n \<le> a" "h_lookup h a = Some x"
  shows "\<forall>a'\<in>refs x. n \<le> a'"
  using assms unfolding closed_from_def h_lookup_def by (auto split: if_splits)

lemma closed_h_rows:
  assumes "closed_from n h" "n \<le> b" "h_rows h b = Inr ras"
  shows "\<forall>a\<in>set ras. n \<le> a"
proof -
  from assms(3) obtain sz k ra where
    l: "h_lookup h b = Some (OBoard sz k ra)" "h_lookup h ra = Some (ORows ras)"
    by (auto simp: h_rows_def split: option.splits obj.splits)
  from closed_lookup[OF assms(1,2) l(1)] have "n \<le> ra" by simp
  from closed_lookup[OF assms(1) this l(2)] show ?thesis by simp
qed

lemma closed_h_row:
  assumes "closed_from n h" "n \<le> b" "h_row h b i = Inr (rowa, cells)"
  shows "n \<le> rowa" "\<forall>a. HRef a \<in> set cells \<longrightarrow> n \<le> a"
proof -
  from assms(3) obtain ras where
    r: "h_rows h b = Inr ras" "i < length ras" "rowa = ras ! i" "h_lookup h rowa = Some (ORow cells)"
    by (auto simp: h_row_def split: sum.splits if_splits option.splits obj.splits)
  from closed_h_rows[OF assms(1,2) r(1)] r(2,3) show "n \<le> rowa" by simp
  from closed_lookup[OF assms(1) this r(4)] show "\<forall>a. HRef a \<in> set cells \<longrightarrow> n \<le> a" by simp
qed

lemma closed_h_get_cell:
  assumes "closed_from n h" "n \<le> b" "h_get_cell h b i j = Inr (HRef a)"
  shows "n \<le> a"
proof -
  from assms(3) obtain rowa cells where
    r: "h_row h b i = Inr (rowa, cells)" "j < length cells" "cells ! j = HRef a"
    by (auto simp: h_get_cell_def split: sum.splits if_splits)
  from r(2,3) have "HRef a \<in> set cells" by (metis nth_mem)
  with closed_h_row(2)[OF assms(1,2) r(1)] show ?thesis by simp
qed

lemma frame_remove_if_exists:
  assumes "closed_from n h" "\<forall>a. x = HRef a \<longrightarrow> n \<le> a" "h_remove_if_exists h x v = (r, h')"
  shows "closed_from n h' \<and> same_below n h h'"
proof (cases x)
  case (HVal k)
  with assms(1,3) show ?thesis by (simp add: h_remove_if_exists_def same_below_refl)
next
  case (HRef a)
  with assms(2) have a: "n \<le> a" by simp
  show ?thesis
  proof (cases "\<exists>xs. h_lookup h a = Some (OCands xs) \<and> v \<in> set xs")
    case True
    then obtain xs where "h_lookup h a = Some (OCands xs)" "v \<in> set xs" by blast
    with assms(3) HRef have "h' = h[a := OCands (remove1 v xs)]"
      by (simp add: h_remove_if_exists_def)
    with closed_write[OF assms(1) a, of "OCands (remove1 v xs)"] show ?thesis by simp
  next
    case False
    with assms(3) HRef have "h' = h"
      by (auto simp: h_remove_if_exists_def split: option.splits obj.splits if_splits)
    with assms(1) show ?thesis by (simp add: same_below_refl)
  qed
qed

lemma frame_remove_at:
  assumes "closed_from n h" "n \<le> b" "h_remove_at h b i j v = (r, h')"
  shows "closed_from n h' \<and> same_below n h h'"
proof (cases "h_get_cell h b i j")
  case (Inl e)
  with assms(1,3) show ?thesis by (simp add: h_remove_at_def same_below_refl)
next
  case (Inr x)
  with assms(3) have "h_remove_if_exists h x v = (r, h')" by (simp add: h_remove_at_def)
  moreover have "\<forall>a. x = HRef a \<longrightarrow> n \<le> a" using closed_h_get_cell[OF assms(1,2)] Inr by blast
  ultimately show ?thesis using frame_remove_if_exists[OF assms(1)] by blast
qed

lemma frame_remove_loop:
  assumes "closed_from n h" "n \<le> b" "h_remove_loop h b ps v = (r, h')"
  shows "closed_from n h' \<and> same_below n h h'"
  using assms(1,3)
proof (induction ps arbitrary: h)
  case Nil
  then show ?case by (simp add: same_below_refl)
next
  case (Cons p ps)
  obtain i j where p: "p = (i, j)" by (cases p)
  obtain r1 h1 where h1: "h_remove_at h b i j v = (r1, h1)" by (cases "h_remove_at h b i j v")
  from frame_remove_at[OF Cons.prems(1) assms(2) h1] have f1: "closed_from n h1" "same_below n h h1"
    by simp_all
  show ?case
  proof (cases r1)
    case (Inl e)
    with Cons.prems(2) h1 f1 show ?thesis by (simp add: p)
  next
    case (Inr u)
    with Cons.prems(2) h1 have "h_remove_loop h1 b ps v = (r, h')" by (simp add: p)
    from Cons.IH[OF f1(1) this] f1(2) show ?thesis by (blast intro: same_below_trans)
  qed
qed

lemma frame_update:
  assumes "closed_from n h" "n \<le> b" "h_update h b row col v = (r, h')"
  shows "closed_from n h' \<and> same_below n h h'"
proof (cases "h_row h b row")
  case (Inl e)
  with assms(1,3) show ?thesis by (simp add: h_update_def same_below_refl)
next
  case (Inr rc)
  obtain rowa cells where rc: "rc = (rowa, cells)" by (cases rc)
  note row = Inr[unfolded rc]
  note above = closed_h_row[OF assms(1,2) row]
  show ?thesis
  proof (cases "col < length cells")
    case False
    with assms(1,3) row show ?thesis by (simp add: h_update_def same_below_refl)
  next
    case True
    define h1 where "h1 = h[rowa := ORow (cells[col := HVal v])]"
    have "\<forall>a'\<in>refs (ORow (cells[col := HVal v])). n \<le> a'"
      using above(2) by (auto dest: set_update_subset_insert[THEN subsetD])
    from closed_write[OF assms(1) above(1) this] have
      f1: "closed_from n h1" "same_below n h h1" by (simp_all add: h1_def)
    show ?thesis
    proof (cases "\<exists>sz k ra. h_lookup h1 b = Some (OBoard sz k ra)")
      case False
      with assms(3) row True have "h' = h1"
        by (auto simp: h_update_def Let_def h1_def split: option.splits obj.splits)
      with f1 show ?thesis by simp
    next
      case True
      then obtain sz k ra where b: "h_lookup h1 b = Some (OBoard sz k ra)" by blast
      define h2 where "h2 = h1[b := OBoard sz (k + 1) ra]"
      from closed_lookup[OF f1(1) assms(2) b] have "\<forall>a'\<in>refs (OBoard sz (k + 1) ra). n \<le> a'" by simp
      from closed_write[OF f1(1) assms(2) this] have
        f2: "closed_from n h2" "same_below n h1 h2" by (simp_all add: h2_def)
      let ?ps = "concat (map (\<lambda>i. [(row, i), (i, col)]) [0..<sz])"
      obtain r3 h3 where h3: "h_remove_loop h2 b ?ps v = (r3, h3)" by (cases "h_remove_loop h2 b ?ps v")
      from frame_remove_loop[OF f2(1) assms(2) h3] have
        f3: "closed_from n h3" "same_below n h2 h3" by simp_all
      have s3: "same_below n h h3" using f1(2) f2(2) f3(2) by (blast intro: same_below_trans)
      have u: "h_update h b row col v =
          (case r3 of Inl e \<Rightarrow> (Inl e, h3)
           | Inr u \<Rightarrow> (case subgrid_coordinates row col of
                 Inl e \<Rightarrow> (Inl e, h3) | Inr coords \<Rightarrow> h_remove_loop h3 b coords v))"
        using row \<open>col < length cells\<close> b h3
        by (simp add: h_update_def Let_def h1_def[symmetric] h2_def[symmetric])
      show ?thesis
      proof (cases "\<exists>u coords. r3 = Inr u \<and> subgrid_coordinates row col = Inr coords")
        case False
        with u assms(3) have "h' = h3" by (auto split: sum.splits)
        with f3(1) s3 show ?thesis by simp
      next
        case True
        then obtain coords where "h_remove_loop h3 b coords v = (r, h')"
          using u assms(3) by auto
        from frame_remove_loop[OF f3(1) assms(2) this] s3 show ?thesis
          by (blast intro: same_below_trans)
      qed
    qed
  qed
qed

lemma frame_updates:
  assumes "closed_from n h" "n \<le> b"
  shows "closed_from n (h_updates h b ms) \<and> same_below n h (h_updates h b ms)"
  using assms(1)
proof (induction ms arbitrary: h)
  case Nil
  then show ?case by (simp add: same_below_refl)
next
  case (Cons m ms)
  obtain r c v where m: "m = (r, c, v)" by (cases m)
  obtain res h1 where h1: "h_update h b r c v = (res, h1)" by (cases "h_update h b r c v")
  from frame_update[OF Cons.prems assms(2) h1] have f1: "closed_from n h1" "same_below n h h1"
    by simp_all
  from Cons.IH[OF f1(1)] f1(2) h1 show ?case
    by (auto simp: m intro: same_below_trans)
qed

lemma frame_copy_cands:
  assumes "closed_from n h" "memo_from n m" "h_copy_cands h m a = (r, m', h')"
  shows "closed_from n h' \<and> memo_from n m' \<and> same_below n h h' \<and> (\<forall>a'. r = Inr a' \<longrightarrow> n \<le> a')"
proof (cases "m a")
  case (Some a')
  with assms show ?thesis by (auto simp: h_copy_cands_def same_below_refl memo_from_def)
next
  case None
  show ?thesis
  proof (cases "\<exists>xs. h_lookup h a = Some (OCands xs)")
    case False
    with assms None show ?thesis
      by (auto simp: h_copy_cands_def same_below_refl split: option.splits obj.splits)
  next
    case True
    then obtain xs where xs: "h_lookup h a = Some (OCands xs)" by blast
    with assms(3) None have res: "r = Inr (length h)" "m' = m(a \<mapsto> length h)" "h' = h @ [OCands xs]"
      by (simp_all add: h_copy_cands_def)
    from assms(1) have len: "n \<le> length h" by (simp add: closed_from_def)
    from closed_alloc[OF assms(1), of "OCands xs"] have "closed_from n h'" "same_below n h h'"
      by (simp_all add: res(3))
    moreover have "memo_from n m'" using assms(2) len by (simp add: res(2) memo_from_def)
    ultimately show ?thesis using len by (simp add: res(1))
  qed
qed

lemma frame_copy_cell:
  assumes "closed_from n h" "memo_from n m" "h_copy_cell h m x = (r, m', h')"
  shows "closed_from n h' \<and> memo_from n m' \<and> same_below n h h' \<and>
         (\<forall>x' a'. r = Inr x' \<longrightarrow> x' = HRef a' \<longrightarrow> n \<le> a')"
proof (cases x)
  case (HVal k)
  with assms show ?thesis by (auto simp: h_copy_cell_def same_below_refl)
next
  case (HRef a)
  obtain r1 m1 h1 where c: "h_copy_cands h m a = (r1, m1, h1)" by (cases "h_copy_cands h m a")
  from frame_copy_cands[OF assms(1,2) c] have
    f: "closed_from n h1" "memo_from n m1" "same_below n h h1" "\<forall>a'. r1 = Inr a' \<longrightarrow> n \<le> a'"
    by simp_all
  from assms(3) HRef c have "m' = m1" "h' = h1" "\<forall>x'. r = Inr x' \<longrightarrow> (\<exists>a'. r1 = Inr a' \<and> x' = HRef a')"
    by (auto simp: h_copy_cell_def split: sum.splits)
  with f show ?thesis by auto
qed

lemma frame_copy_cells:
  assumes "n \<le> y" "closed_from n h" "memo_from n m" "h_copy_cells h m y xs = (r, m', h')"
  shows "closed_from n h' \<and> memo_from n m' \<and> same_below n h h'"
  using assms(2-4)
proof (induction xs arbitrary: h m)
  case Nil
  then show ?case by (simp add: same_below_refl)
next
  case (Cons x xs)
  obtain r1 m1 h1 where c: "h_copy_cell h m x = (r1, m1, h1)" by (cases "h_copy_cell h m x") auto
  from frame_copy_cell[OF Cons.prems(1,2) c] have
    f: "closed_from n h1" "memo_from n m1" "same_below n h h1"
       "\<forall>x' a'. r1 = Inr x' \<longrightarrow> x' = HRef a' \<longrightarrow> n \<le> a'"
    by simp_all
  show ?case
  proof (cases "\<exists>x' ys. r1 = Inr x' \<and> h_lookup h1 y = Some (ORow ys)")
    case False
    with Cons.prems(3) c have "m' = m1" "h' = h1"
      by (auto split: sum.splits option.splits obj.splits)
    with f show ?thesis by simp
  next
    case True
    then obtain x' ys where t: "r1 = Inr x'" "h_lookup h1 y = Some (ORow ys)" by blast
    define h2 where "h2 = h1[y := ORow (ys @ [x'])]"
    from closed_lookup[OF f(1) assms(1) t(2)] f(4) t(1)
    have "\<forall>a'\<in>refs (ORow (ys @ [x'])). n \<le> a'" by auto
    from closed_write[OF f(1) assms(1) this] have
      f2: "closed_from n h2" "same_below n h1 h2" by (simp_all add: h2_def)
    from Cons.prems(3) c t have "h_copy_cells h2 m1 y xs = (r, m', h')" by (simp add: h2_def)
    from Cons.IH[OF f2(1) f(2) this] f(3) f2(2) show ?thesis
      by (blast intro: same_below_trans)
  qed
qed

lemma frame_copy_row:
  assumes "closed_from n h" "memo_from n m" "h_copy_row h m a = (r, m', h')"
  shows "closed_from n h' \<and> memo_from n m' \<and> same_below n h h' \<and> (\<forall>a'. r = Inr a' \<longrightarrow> n \<le> a')"
proof (cases "m a")
  case (Some a')
  with assms show ?thesis by (auto simp: h_copy_row_def same_below_refl memo_from_def)
next
  case None
  show ?thesis
  proof (cases "\<exists>cells. h_lookup h a = Some (ORow cells)")
    case False
    with assms None show ?thesis
      by (auto simp: h_copy_row_def same_below_refl split: option.splits obj.splits)
  next
    case True
    then obtain cells where cells: "h_lookup h a = Some (ORow cells)" by blast
    from assms(1) have len: "n \<le> length h" by (simp add: closed_from_def)
    obtain r1 m1 h1 where
      c: "h_copy_cells (h @ [ORow []]) (m(a \<mapsto> length h)) (length h) cells = (r1, m1, h1)"
      by (cases "h_copy_cells (h @ [ORow []]) (m(a \<mapsto> length h)) (length h) cells") auto
    from closed_alloc[OF assms(1), of "ORow []"] have
      f0: "closed_from n (h @ [ORow []])" "same_below n h (h @ [ORow []])" by simp_all
    have m0: "memo_from n (m(a \<mapsto> length h))" using assms(2) len by (simp add: memo_from_def)
    from frame_copy_cells[OF len f0(1) m0 c] have
      f1: "closed_from n h1" "memo_from n m1" "same_below n (h @ [ORow []]) h1" by simp_all
    from assms(3) None cells c have "m' = m1" "h' = h1" "\<forall>a'. r = Inr a' \<longrightarrow> a' = length h"
      by (auto simp: h_copy_row_def split: sum.splits)
    with f1 f0(2) len show ?thesis by (auto intro: same_below_trans)
  qed
qed

lemma frame_copy_row_list:
  assumes "n \<le> y" "closed_from n h" "memo_from n m" "h_copy_row_list h m y as = (r, m', h')"
  shows "closed_from n h' \<and> memo_from n m' \<and> same_below n h h'"
  using assms(2-4)
proof (induction as arbitrary: h m)
  case Nil
  then show ?case by (simp add: same_below_refl)
next
  case (Cons a as)
  obtain r1 m1 h1 where c: "h_copy_row h m a = (r1, m1, h1)" by (cases "h_copy_row h m a") auto
  from frame_copy_row[OF Cons.prems(1,2) c] have
    f: "closed_from n h1" "memo_from n m1" "same_below n h h1" "\<forall>a'. r1 = Inr a' \<longrightarrow> n \<le> a'"
    by simp_all
  show ?case
  proof (cases "\<exists>a' ys. r1 = Inr a' \<and> h_lookup h1 y = Some (ORows ys)")
    case False
    with Cons.prems(3) c have "m' = m1" "h' = h1"
      by (auto split: sum.splits option.splits obj.splits)
    with f show ?thesis by simp
  next
    case True
    then obtain a' ys where t: "r1 = Inr a'" "h_lookup h1 y = Some (ORows ys)" by blast
    define h2 where "h2 = h1[y := ORows (ys @ [a'])]"
    from closed_lookup[OF f(1) assms(1) t(2)] f(4) t(1)
    have "\<forall>x\<in>refs (ORows (ys @ [a'])). n \<le> x" by auto
    from closed_write[OF f(1) assms(1) this] have
      f2: "closed_from n h2" "same_below n h1 h2" by (simp_all add: h2_def)
    from Cons.prems(3) c t have "h_copy_row_list h2 m1 y as = (r, m', h')" by (simp add: h2_def)
    from Cons.IH[OF f2(1) f(2) this] f(3) f2(2) show ?thesis
      by (blast intro: same_below_trans)
  qed
qed

lemma frame_copy_rows:
  assumes "closed_from n h" "memo_from n m" "h_copy_rows h m a = (r, m', h')"
  shows "closed_from n h' \<and> memo_from n m' \<and> same_below n h h' \<and> (\<forall>a'. r = Inr a' \<longrightarrow> n \<le> a')"
proof (cases "m a")
  case (Some a')
  with assms show ?thesis by (auto simp: h_copy_rows_def same_below_refl memo_from_def)
next
  case None
  show ?thesis
  proof (cases "\<exists>ras. h_lookup h a = Some (ORows ras)")
    case False
    with assms None show ?thesis
      by (auto simp: h_copy_rows_def same_below_refl split: option.splits obj.splits)
  next
    case True
    then obtain ras where ras: "h_lookup h a = Some (ORows ras)" by blast
    from assms(1) have len: "n \<le> length h" by (simp add: closed_from_def)
    obtain r1 m1 h1 where
      c: "h_copy_row_list (h @ [ORows []]) (m(a \<mapsto> length h)) (length h) ras = (r1, m1, h1)"
      by (cases "h_copy_row_list (h @ [ORows []]) (m(a \<mapsto> length h)) (length h) ras") auto
    from closed_alloc[OF assms(1), of "ORows []"] have
      f0: "closed_from n (h @ [ORows []])" "same_below n h (h @ [ORows []])" by simp_all
    have m0: "memo_from n (m(a \<mapsto> length h))" using assms(2) len by (simp add: memo_from_def)
    from frame_copy_row_list[OF len f0(1) m0 c] have
      f1: "closed_from n h1" "memo_from n m1" "same_below n (h @ [ORows []]) h1" by simp_all
    from assms(3) None ras c have "m' = m1" "h' = h1" "\<forall>a'. r = Inr a' \<longrightarrow> a' = length h"
      by (auto simp: h_copy_rows_def split: sum.splits)
    with f1 f0(2) len show ?thesis by (auto intro: same_below_trans)
  qed
qed

lemma closed_from_length: "closed_from (length h) h"
  by (simp add: closed_from_def)

lemma frame_deepcopy_fresh:
  assumes "h_deepcopy h b = (r, h')"
  shows "closed_from (length h) h' \<and> same_below (length h) h h' \<and>
         (\<forall>c. r = Inr c \<longrightarrow> length h \<le> c)"
proof (cases "\<exists>sz k ra. h_lookup h b = Some (OBoard sz k ra)")
  case False
  with assms have "h' = h" by (auto simp: h_deepcopy_def split: option.splits obj.splits)
  then show ?thesis using assms False
    by (auto simp: closed_from_length same_below_refl h_deepcopy_def split: option.splits obj.splits)
next
  case True
  then obtain sz k ra where b: "h_lookup h b = Some (OBoard sz k ra)" by blast
  obtain r1 m1 h1 where c: "h_copy_rows h Map.empty ra = (r1, m1, h1)"
    by (cases "h_copy_rows h Map.empty ra") auto
  have "memo_from (length h) Map.empty" by (simp add: memo_from_def)
  from frame_copy_rows[OF closed_from_length this c] have
    f: "closed_from (length h) h1" "same_below (length h) h h1" "\<forall>a'. r1 = Inr a' \<longrightarrow> length h \<le> a'"
    by simp_all
  show ?thesis
  proof (cases r1)
    case (Inl e)
    with assms b c have "h' = h1" "r = Inl e" by (simp_all add: h_deepcopy_def)
    with f show ?thesis by simp
  next
    case (Inr ra')
    with assms b c have res: "h' = h1 @ [OBoard sz k ra']" "r = Inr (length h1)"
      by (simp_all add: h_deepcopy_def)
    from f(3) Inr have "\<forall>a'\<in>refs (OBoard sz k ra'). length h \<le> a'" by simp
    from closed_alloc[OF f(1) this] f(2) have "closed_from (length h) h'" "same_below (length h) h h'"
      by (auto simp: res(1) intro: same_below_trans)
    moreover from f(2) have "length h \<le> length h1" by (simp add: same_below_def)
    ultimately show ?thesis by (simp add: res(2))
  qed
qed

lemma closed_from_older:
  assumes "closed_from n h" "closed_from (length h) h'" "same_below (length h) h h'"
  shows "closed_from n h'" "same_below n h h'"
proof -
  from assms(1) have n: "n \<le> length h" by (simp add: closed_from_def)
  from assms(3) have len: "length h \<le> length h'" and tk: "take (length h) h' = h"
    by (simp_all add: same_below_def)
  have old: "h' ! a = h ! a" if "a < length h" for a
    using that tk by (metis nth_take)
  have "n \<le> a'" if "n \<le> a" "a < length h'" "a' \<in> refs (h' ! a)" for a a'
  proof (cases "a < length h")
    case True
    with that old assms(1) show ?thesis unfolding closed_from_def by auto
  next
    case False
    then have "length h \<le> a \<and> a < length h'" using that(2) by simp
    with that(3) assms(2) have "length h \<le> a'" unfolding closed_from_def by blast
    with n show ?thesis by simp
  qed
  with n len show "closed_from n h'" unfolding closed_from_def by auto
  have "take n h' = take n (take (length h) h')" using n by (simp add: min_def)
  with tk len show "same_below n h h'" by (simp add: same_below_def)
qed

lemma frame_deepcopy:
  assumes "closed_from n h" "h_deepcopy h b = (r, h')"
  shows "closed_from n h' \<and> same_below n h h' \<and> (\<forall>c. r = Inr c \<longrightarrow> n \<le> c)"
proof -
  from frame_deepcopy_fresh[OF assms(2)] have
    f: "closed_from (length h) h'" "same_below (length h) h h'" "\<forall>c. r = Inr c \<longrightarrow> length h \<le> c"
    by simp_all
  from assms(1) have "n \<le> length h" by (simp add: closed_from_def)
  with closed_from_older[OF assms(1) f(1,2)] f(3) show ?thesis by auto
qed

lemma h_for_possibilities_Suc:
  assumes "h_for_possibilities (Suc fuel) h cur row col pa idx stack = (r, h')"
  shows "h' = h \<or>
         (\<exists>r1 h1. h_deepcopy h cur = (r1, h1) \<and>
            (h' = h1 \<or>
             (\<exists>cpy v r2 h2. r1 = Inr cpy \<and> h_update h1 cpy row col v = (r2, h2) \<and>
                (h' = h2 \<or>
                 (\<exists>idx' stack'. h_for_possibilities fuel h2 cur row col pa idx' stack' = (r, h'))))))"
proof (cases "h_deepcopy h cur")
  case (Pair r1 h1)
  show ?thesis
  proof (cases r1)
    case (Inl e)
    with assms Pair show ?thesis
      by (auto split: option.splits obj.splits if_splits)
  next
    case (Inr cpy)
    show ?thesis
    proof (cases "\<exists>xs. h_lookup h pa = Some (OCands xs) \<and> idx < length xs")
      case False
      with assms have "h' = h" by (auto split: option.splits obj.splits if_splits)
      then show ?thesis by simp
    next
      case True
      then obtain xs where xs: "h_lookup h pa = Some (OCands xs)" "idx < length xs" by blast
      obtain r2 h2 where u: "h_update h1 cpy row col (xs ! idx) = (r2, h2)"
        by (cases "h_update h1 cpy row col (xs ! idx)")
      show ?thesis
      proof (cases r2)
        case (Inl e)
        with assms Pair Inr xs u have "h' = h2" by simp
        with Pair Inr u show ?thesis by blast
      next
        case (Inr u')
        with assms Pair \<open>r1 = Inr cpy\<close> xs u
        have "h_for_possibilities fuel h2 cur row col pa (idx + 1) (push cpy stack) = (r, h')"
          by simp
        with Pair \<open>r1 = Inr cpy\<close> u show ?thesis by blast
      qed
    qed
  qed
qed

lemma frame_for_possibilities:
  assumes "closed_from n h" "h_for_possibilities fuel h cur row col pa idx stack = (r, h')"
  shows "closed_from n h' \<and> same_below n h h'"
  using assms
proof (induction fuel arbitrary: h idx stack)
  case 0
  then show ?case by (simp add: same_below_refl)
next
  case (Suc fuel)
  from h_for_possibilities_Suc[OF Suc.prems(2)] show ?case
  proof (elim disjE exE conjE)
    assume "h' = h"
    with Suc.prems(1) show ?thesis by (simp add: same_below_refl)
  next
    fix r1 h1 assume "h_deepcopy h cur = (r1, h1)" "h' = h1"
    with frame_deepcopy[OF Suc.prems(1)] show ?thesis by blast
  next
    fix r1 h1 cpy v r2 h2
    assume a: "h_deepcopy h cur = (r1, h1)" "r1 = Inr cpy" "h_update h1 cpy row col v = (r2, h2)" "h' = h2"
    from frame_deepcopy[OF Suc.prems(1) a(1)] a(2) have
      f1: "closed_from n h1" "same_below n h h1" "n \<le> cpy" by simp_all
    from frame_update[OF f1(1,3) a(3)] f1(2) a(4) show ?thesis by (blast intro: same_below_trans)
  next
    fix r1 h1 cpy v r2 h2 idx' stack'
    assume a: "h_deepcopy h cur = (r1, h1)" "r1 = Inr cpy" "h_update h1 cpy row col v = (r2, h2)"
      "h_for_possibilities fuel h2 cur row col pa idx' stack' = (r, h')"
    from frame_deepcopy[OF Suc.prems(1) a(1)] a(2) have
      f1: "closed_from n h1" "same_below n h h1" "n \<le> cpy" by simp_all
    from frame_update[OF f1(1,3) a(3)] have f2: "closed_from n h2" "same_below n h1 h2" by simp_all
    from Suc.IH[OF f2(1) a(4)] f1(2) f2(2) show ?thesis by (blast intro: same_below_trans)
  qed
qed

lemma h_DFS_loop_Suc:
  assumes "h_DFS_loop (Suc fuel) h stack = (r, h')"
  shows "h' = h \<or> (\<exists>stack'. h_DFS_loop fuel h stack' = (r, h')) \<or>
         (\<exists>cur row col pa stack' r1 h1.
            h_for_possibilities fuel h cur row col pa 0 stack' = (r1, h1) \<and>
            (h' = h1 \<or> (\<exists>stack''. h_DFS_loop fuel h1 stack'' = (r, h'))))"
proof (cases stack)
  case Nil
  with assms show ?thesis by (simp add: is_empty_def)
next
  case (Cons cur stack')
  show ?thesis
  proof (cases "h_goal_test h cur = Inr False \<and> (\<exists>f. h_failure_test h cur = Inr f)")
    case False
    with assms Cons have "h' = h" by (auto simp: is_empty_def split: sum.splits if_splits)
    then show ?thesis by simp
  next
    case True
    then obtain f where t: "h_goal_test h cur = Inr False" "h_failure_test h cur = Inr f" by blast
    show ?thesis
    proof (cases f)
      case True
      with assms Cons t have "h_DFS_loop fuel h stack' = (r, h')" by (simp add: is_empty_def)
      then show ?thesis by blast
    next
      case False
      show ?thesis
      proof (cases "\<exists>row col pa. h_find_most_constrained_cell h cur = Inr (row, col) \<and>
                       h_get_cell h cur row col = Inr (HRef pa)")
        case False
        with assms Cons t \<open>\<not> f\<close> have "h' = h"
          by (auto simp: is_empty_def split: sum.splits hcell.splits prod.splits)
        then show ?thesis by simp
      next
        case True
        then obtain row col pa where
          m: "h_find_most_constrained_cell h cur = Inr (row, col)" "h_get_cell h cur row col = Inr (HRef pa)"
          by blast
        obtain r1 h1 where p: "h_for_possibilities fuel h cur row col pa 0 stack' = (r1, h1)"
          by (cases "h_for_possibilities fuel h cur row col pa 0 stack'")
        show ?thesis
        proof (cases r1)
          case (Inl e)
          with assms Cons t \<open>\<not> f\<close> m p have "h' = h1" by (simp add: is_empty_def)
          with p show ?thesis by blast
        next
          case (Inr stack'')
          with assms Cons t \<open>\<not> f\<close> m p have "h_DFS_loop fuel h1 stack'' = (r, h')"
            by (simp add: is_empty_def)
          with p show ?thesis by blast
        qed
      qed
    qed
  qed
qed

lemma frame_DFS_loop:
  assumes "closed_from n h" "h_DFS_loop fuel h stack = (r, h')"
  shows "closed_from n h' \<and> same_below n h h'"
  using assms
proof (induction fuel arbitrary: h stack)
  case 0
  then show ?case by (simp add: same_below_refl)
next
  case (Suc fuel)
  from h_DFS_loop_Suc[OF Suc.prems(2)] show ?case
  proof (elim disjE exE conjE)
    assume "h' = h"
    with Suc.prems(1) show ?thesis by (simp add: same_below_refl)
  next
    fix stack' assume "h_DFS_loop fuel h stack' = (r, h')"
    from Suc.IH[OF Suc.prems(1) this] show ?thesis .
  next
    fix cur row col pa stack' r1 h1
    assume "h_for_possibilities fuel h cur row col pa 0 stack' = (r1, h1)" "h' = h1"
    with frame_for_possibilities[OF Suc.prems(1)] show ?thesis by blast
  next
    fix cur row col pa stack' r1 h1 stack''
    assume a: "h_for_possibilities fuel h cur row col pa 0 stack' = (r1, h1)"
      "h_DFS_loop fuel h1 stack'' = (r, h')"
    from frame_for_possibilities[OF Suc.prems(1) a(1)] have
      f1: "closed_from n h1" "same_below n h h1" by simp_all
    from Suc.IH[OF f1(1) a(2)] f1(2) show ?thesis by (blast intro: same_below_trans)
  qed
qed

lemma same_below_lookup:
  assumes "same_below (length h) h h'" "h_lookup h a = Some x"
  shows "h_lookup h' a = Some x"
proof -
  from assms(2) have a: "a < length h" "h ! a = x" by (auto simp: h_lookup_def split: if_splits)
  from assms(1) have "length h \<le> length h'" "take (length h) h' = h" by (simp_all add: same_below_def)
  with a have "a < length h'" "h' ! a = x" by (simp, metis nth_take)
  then show ?thesis by (simp add: h_lookup_def)
qed

lemma those_map_mono:
  assumes "those (map f xs) = Some ys" "\<And>x y. f x = Some y \<Longrightarrow> g x = Some y"
  shows "those (map g xs) = Some ys"
  using assms(1)
proof (induction xs arbitrary: ys)
  case Nil
  then show ?case by simp
next
  case (Cons x xs)
  from Cons.prems obtain y ys' where y: "f x = Some y" "those (map f xs) = Some ys'" "ys = y # ys'"
    by (auto split: option.splits)
  from Cons.IH[OF y(2)] assms(2)[OF y(1)] y(3) show ?case by simp
qed

lemma same_below_view:
  assumes "same_below (length h) h h'" "h_view h b = Some v"
  shows "h_view h' b = Some v"
proof -
  note lk = same_below_lookup[OF assms(1)]
  have cell: "h_cell_view h' x = Some c" if "h_cell_view h x = Some c" for x c
    using that lk by (auto simp: h_cell_view_def split: hcell.splits option.splits obj.splits)
  have row: "h_row_view h' a = Some cs" if "h_row_view h a = Some cs" for a cs
  proof -
    from that obtain cells where
      c: "h_lookup h a = Some (ORow cells)" "those (map (h_cell_view h) cells) = Some cs"
      by (auto simp: h_row_view_def split: option.splits obj.splits)
    from those_map_mono[OF c(2), of "h_cell_view h'"] cell lk[OF c(1)] show ?thesis
      by (simp add: h_row_view_def)
  qed
  from assms(2) obtain sz n ra ras rs where
    b: "h_lookup h b = Some (OBoard sz n ra)" "h_lookup h ra = Some (ORows ras)"
       "those (map (h_row_view h) ras) = Some rs" "v = \<lparr> size_attr = sz, num_nums_placed = n, rows = rs \<rparr>"
    by (auto simp: h_view_def split: option.splits obj.splits)
  from those_map_mono[OF b(3), of "h_row_view h'"] row lk[OF b(1)] lk[OF b(2)] b(4) show ?thesis
    by (simp add: h_view_def)
qed

lemma same_below_length:
  assumes "same_below (length h) h h'"
  shows "take (length h) h' = h"
  using assms by (simp add: same_below_def)

text \<open>
  C9. Let \<open>c\<close> be the deep copy of the board at \<open>b\<close>. After any sequence of \<^verbatim>\<open>update\<close>
  calls on \<open>c\<close> (calls that raise included), every object the store held before the copy
  was made is unchanged; in particular the original board, read as a value (its size,
  its \<^verbatim>\<open>num_nums_placed\<close>, its numbers and its lists), is what it was.
\<close>

theorem copy_isolated_from_original:
  assumes "h_deepcopy h b = (Inr c, h1)"
  shows "take (length h) (h_updates h1 c ms) = h \<and>
         (\<forall>v. h_view h b = Some v \<longrightarrow> h_view (h_updates h1 c ms) b = Some v)"
proof -
  from frame_deepcopy_fresh[OF assms] have
    f1: "closed_from (length h) h1" "same_below (length h) h h1" "length h \<le> c" by simp_all
  from frame_updates[OF f1(1,3), of ms] f1(2) have
    s: "same_below (length h) h (h_updates h1 c ms)" by (blast intro: same_below_trans)
  from same_below_length[OF s] same_below_view[OF s] show ?thesis by blast
qed

theorem copy_isolated_from_original_witness:
  "\<exists>c h1. h_deepcopy mini_store 13 = (Inr c, h1) \<and>
     take (length mini_store) (h_updates h1 c [(0, 0, 1), (1, 1, 2)]) = mini_store \<and>
     h_view (h_updates h1 c [(0, 0, 1), (1, 1, 2)]) 13 = h_view mini_store 13 \<and>
     h_view h1 c = h_view mini_store 13 \<and>
     h_view (h_updates h1 c [(0, 0, 1), (1, 1, 2)]) c \<noteq> h_view mini_store 13 \<and>
     h_view mini_store 13 \<noteq> None"
proof -
  obtain r h1 where d: "h_deepcopy mini_store 13 = (r, h1)" by (cases "h_deepcopy mini_store 13")
  have "fst (h_deepcopy mini_store 13) = Inr 27" by code_simp
  with d have r: "r = Inr 27" by simp
  have v0: "h_view mini_store 13 \<noteq> None" by code_simp
  then obtain v where v: "h_view mini_store 13 = Some v" by blast
  have c1: "h_view (snd (h_deepcopy mini_store 13)) 27 = h_view mini_store 13" by code_simp
  have c2: "h_view (h_updates (snd (h_deepcopy mini_store 13)) 27 [(0, 0, 1), (1, 1, 2)]) 27
             \<noteq> h_view mini_store 13" by code_simp
  from copy_isolated_from_original[OF d[unfolded r], of "[(0, 0, 1), (1, 1, 2)]"] v d r c1 c2
  show ?thesis by (intro exI[of _ 27] exI[of _ h1]) simp
qed

lemma h_DFS_goal:
  assumes "h_goal_test h state = Inr True"
  shows "h_DFS (Suc fuel) h state = (Inr (Some state), h)"
  using assms by (simp add: h_DFS_def Stack_single is_empty_def)

lemma frame_DFS:
  assumes "h_DFS fuel h state = (r, h')"
  shows "same_below (length h) h h'"
  using frame_DFS_loop[OF closed_from_length, of fuel h "Stack [state]" r h'] assms
  by (simp add: h_DFS_def)

lemma DFS_goal: "goal_test b \<Longrightarrow> DFS b = Inr (Some b)"
  by (simp add: DFS_def Stack_single DFS_loop_Cons DFS_body_def)

lemma h_view_goal:
  assumes "h_view h state = Some b"
  shows "h_goal_test h state = Inr (goal_test b)"
  using assms by (auto simp: h_view_def h_goal_test_def goal_test_def split: option.splits obj.splits)

text \<open>
  C10. Whatever \<^verbatim>\<open>DFS\<close> does on the board at address \<open>state\<close>, within any number of
  steps and whatever its outcome, every object the store held at the call is unchanged
  afterwards; in particular the input board, read as a value, is what it was. When the
  input passes the goal test, \<^verbatim>\<open>DFS\<close> returns its address and leaves the store as it is.
\<close>

theorem DFS_never_mutates_input:
  "(h_DFS fuel h state = (r, h') \<longrightarrow>
      take (length h) h' = h \<and> (\<forall>v. h_view h state = Some v \<longrightarrow> h_view h' state = Some v)) \<and>
   (h_goal_test h state = Inr True \<longrightarrow> h_DFS (Suc fuel) h state = (Inr (Some state), h))"
proof (intro conjI impI)
  assume run: "h_DFS fuel h state = (r, h')"
  note s = frame_DFS[OF run]
  show "take (length h) h' = h" by (rule same_below_length[OF s])
  show "\<forall>v. h_view h state = Some v \<longrightarrow> h_view h' state = Some v"
    using same_below_view[OF s] by blast
next
  assume "h_goal_test h state = Inr True"
  then show "h_DFS (Suc fuel) h state = (Inr (Some state), h)" by (rule h_DFS_goal)
qed

theorem DFS_never_mutates_input_witness:
  "fst (h_DFS 3 (h_updates mini_store 13 [(0, 0, 1), (0, 1, 2)]) 13) = Inr None \<and>
   length (h_updates mini_store 13 [(0, 0, 1), (0, 1, 2)])
     < length (snd (h_DFS 3 (h_updates mini_store 13 [(0, 0, 1), (0, 1, 2)]) 13)) \<and>
   take (length (h_updates mini_store 13 [(0, 0, 1), (0, 1, 2)]))
        (snd (h_DFS 3 (h_updates mini_store 13 [(0, 0, 1), (0, 1, 2)]) 13))
     = h_updates mini_store 13 [(0, 0, 1), (0, 1, 2)] \<and>
   h_view (snd (h_DFS 3 (h_updates mini_store 13 [(0, 0, 1), (0, 1, 2)]) 13)) 13
     = h_view (h_updates mini_store 13 [(0, 0, 1), (0, 1, 2)]) 13 \<and>
   h_view (h_updates mini_store 13 [(0, 0, 1), (0, 1, 2)]) 13 \<noteq> None \<and>
   h_goal_test solved_store 10 = Inr True \<and>
   h_DFS 1 solved_store 10 = (Inr (Some 10), solved_store)"
proof -
  let ?h = "h_updates mini_store 13 [(0, 0, 1), (0, 1, 2)]"
  obtain r h' where run: "h_DFS 3 ?h 13 = (r, h')" by (cases "h_DFS 3 ?h 13")
  have "fst (h_DFS 3 ?h 13) = Inr None" by code_simp
  with run have r: "r = Inr None" by simp
  have grow: "length ?h < length (snd (h_DFS 3 ?h 13))" by code_simp
  have v0: "h_view ?h 13 \<noteq> None" by code_simp
  then obtain v where v: "h_view ?h 13 = Some v" by blast
  have g: "h_goal_test solved_store 10 = Inr True" by code_simp
  from DFS_never_mutates_input[of 3 ?h 13 r h'] run v
  have "take (length ?h) h' = ?h" "h_view h' 13 = Some v" by simp_all
  moreover from DFS_never_mutates_input[of 0 solved_store 10] g
  have "h_DFS 1 solved_store 10 = (Inr (Some 10), solved_store)" by simp
  ultimately show ?thesis using run r grow v g by simp
qed

text \<open>
  C8. When the board at address \<open>state\<close> reads as a board of size 9 whose
  \<^verbatim>\<open>num_nums_placed\<close> is 81 (as it is when all 81 cells hold numbers), \<^verbatim>\<open>DFS\<close> returns
  that address on the first pop and leaves the store exactly as it was: nothing is
  changed and nothing allocated, so no copy is made and no child pushed. On the value
  layer, the loop body returns the board itself.
\<close>

theorem DFS_returns_complete_board_at_once:
  assumes "h_view h state = Some b" "size_attr b = 9" "num_nums_placed b = 81"
  shows "h_DFS (Suc fuel) h state = (Inr (Some state), h) \<and>
         DFS b = Inr (Some b) \<and> DFS_body b stack = Return b"
proof -
  from assms(2,3) have g: "goal_test b" by (simp add: goal_test_def)
  with h_view_goal[OF assms(1)] have "h_goal_test h state = Inr True" by simp
  from h_DFS_goal[OF this] DFS_goal[OF g] g show ?thesis by (simp add: DFS_body_def)
qed

theorem DFS_returns_complete_board_at_once_witness:
  "h_view solved_store 10 =
     Some \<lparr> size_attr = 9, num_nums_placed = 81, rows = map (map Val) solved_grid \<rparr> \<and>
   h_DFS 1 solved_store 10 = (Inr (Some 10), solved_store) \<and>
   DFS \<lparr> size_attr = 9, num_nums_placed = 81, rows = map (map Val) solved_grid \<rparr> =
     Inr (Some \<lparr> size_attr = 9, num_nums_placed = 81, rows = map (map Val) solved_grid \<rparr>) \<and>
   DFS_body \<lparr> size_attr = 9, num_nums_placed = 81, rows = map (map Val) solved_grid \<rparr> [] =
     Return \<lparr> size_attr = 9, num_nums_placed = 81, rows = map (map Val) solved_grid \<rparr>"
proof -
  let ?b = "\<lparr> size_attr = 9, num_nums_placed = 81, rows = map (map Val) solved_grid \<rparr>"
  have v: "h_view solved_store 10 = Some ?b" by code_simp
  from DFS_returns_complete_board_at_once[OF v, of 0 "[]"] v show ?thesis by simp
qed

lemma those_map_Some_iff:
  "those (map f xs) = Some ys \<longleftrightarrow> length ys = length xs \<and> (\<forall>i<length xs. f (xs ! i) = Some (ys ! i))"
proof (induction xs arbitrary: ys)
  case Nil
  then show ?case by auto
next
  case (Cons x xs)
  show ?case
  proof (cases "f x")
    case None
    then show ?thesis by (auto intro: exI[of _ 0])
  next
    case (Some y)
    show ?thesis
    proof
      assume "those (map f (x # xs)) = Some ys"
      with Some obtain ys' where ys: "ys = y # ys'" "those (map f xs) = Some ys'"
        by (auto split: option.splits)
      with Cons.IH[of ys'] Some show "length ys = length (x # xs) \<and> (\<forall>i<length (x # xs). f ((x # xs) ! i) = Some (ys ! i))"
        by (auto simp: nth_Cons split: nat.splits)
    next
      assume a: "length ys = length (x # xs) \<and> (\<forall>i<length (x # xs). f ((x # xs) ! i) = Some (ys ! i))"
      then obtain y' ys' where ys: "ys = y' # ys'" by (cases ys) auto
      from a ys Some have "y' = y" by auto
      moreover from a ys have "length ys' = length xs \<and> (\<forall>i<length xs. f (xs ! i) = Some (ys' ! i))"
        by (auto simp: nth_Cons split: nat.splits)
      with Cons.IH[of ys'] have "those (map f xs) = Some ys'" by simp
      ultimately show "those (map f (x # xs)) = Some ys" using Some ys by simp
    qed
  qed
qed

lemma represents_view:
  assumes "represents h b v"
  shows "h_view h b = Some v"
proof -
  from assms obtain ra ras where
    s: "h_lookup h b = Some (OBoard (size_attr v) (num_nums_placed v) ra)"
       "h_lookup h ra = Some (ORows ras)" "length ras = length (rows v)"
       "\<forall>i<length ras. \<exists>cells. h_lookup h (ras ! i) = Some (ORow cells) \<and>
            length cells = length (rows v ! i) \<and>
            (\<forall>j<length cells. h_cell_view h (cells ! j) = Some (rows v ! i ! j))"
    unfolding represents_def by blast
  have "h_row_view h (ras ! i) = Some (rows v ! i)" if "i < length ras" for i
  proof -
    from s(4) that obtain cells where
      c: "h_lookup h (ras ! i) = Some (ORow cells)" "length cells = length (rows v ! i)"
         "\<forall>j<length cells. h_cell_view h (cells ! j) = Some (rows v ! i ! j)"
      by blast
    then have "those (map (h_cell_view h) cells) = Some (rows v ! i)"
      by (simp add: those_map_Some_iff)
    with c(1) show ?thesis by (simp add: h_row_view_def)
  qed
  with s(3) have "those (map (h_row_view h) ras) = Some (rows v)"
    by (simp add: those_map_Some_iff)
  with s(1,2) show ?thesis by (simp add: h_view_def)
qed

lemma represents_rows:
  assumes "represents h b v"
  shows "\<exists>ras. h_rows h b = Inr ras \<and> distinct ras \<and> length ras = length (rows v)"
  using assms unfolding represents_def h_rows_def by auto

lemma represents_row:
  assumes "represents h b v" "i < length (rows v)"
  shows "\<exists>rowa cells. h_row h b i = Inr (rowa, cells) \<and> h_lookup h rowa = Some (ORow cells) \<and>
           length cells = length (rows v ! i) \<and>
           (\<forall>j<length cells. h_cell_view h (cells ! j) = Some (rows v ! i ! j))"
proof -
  from assms(1) obtain ra ras where
    s: "h_lookup h b = Some (OBoard (size_attr v) (num_nums_placed v) ra)"
       "h_lookup h ra = Some (ORows ras)" "length ras = length (rows v)"
       "\<forall>i<length ras. \<exists>cells. h_lookup h (ras ! i) = Some (ORow cells) \<and>
            length cells = length (rows v ! i) \<and>
            (\<forall>j<length cells. h_cell_view h (cells ! j) = Some (rows v ! i ! j))"
    unfolding represents_def by blast
  from s(3,4) assms(2) obtain cells where
    c: "h_lookup h (ras ! i) = Some (ORow cells)" "length cells = length (rows v ! i)"
       "\<forall>j<length cells. h_cell_view h (cells ! j) = Some (rows v ! i ! j)"
    by auto
  have "h_row h b i = Inr (ras ! i, cells)"
    using s(1,2,3) assms(2) c(1) by (simp add: h_row_def h_rows_def)
  with c show ?thesis by blast
qed

lemma represents_row_error:
  assumes "represents h b v" "\<not> i < length (rows v)"
  shows "h_row h b i = Inl IndexError"
  using represents_rows[OF assms(1)] assms(2) by (auto simp: h_row_def)

lemma represents_get_cell:
  assumes "represents h b v"
  shows "case get_cell (rows v) i j of
           Inl e \<Rightarrow> h_get_cell h b i j = Inl e
         | Inr x \<Rightarrow> \<exists>y. h_get_cell h b i j = Inr y \<and> h_cell_view h y = Some x"
proof (cases "i < length (rows v)")
  case False
  with represents_row_error[OF assms this] show ?thesis
    by (simp add: get_cell_def h_get_cell_def)
next
  case True
  from represents_row[OF assms True] obtain rowa cells where
    c: "h_row h b i = Inr (rowa, cells)" "length cells = length (rows v ! i)"
       "\<forall>j<length cells. h_cell_view h (cells ! j) = Some (rows v ! i ! j)"
    by blast
  with True show ?thesis by (simp add: get_cell_def h_get_cell_def)
qed

lemma h_lookup_update:
  "h_lookup (h[a := x]) a' = (if a' = a \<and> a < length h then Some x else h_lookup h a')"
  by (simp add: h_lookup_def)

lemma h_lookup_same_kind:
  assumes "h_lookup h a = Some x" "h_lookup h a' = Some x'" "a \<noteq> a'"
  shows "h_lookup (h[a := y]) a' = Some x'"
  using assms by (simp add: h_lookup_update)

text \<open>A write that replaces an object by one of the same role leaves the other roles' views alone.\<close>

lemma cell_view_row_write:
  assumes "h_lookup h a = Some (ORow cells)"
  shows "h_cell_view (h[a := ORow cells']) y = h_cell_view h y"
  using assms by (auto simp: h_cell_view_def h_lookup_update split: hcell.splits)

lemma cell_view_board_write:
  assumes "h_lookup h a = Some (OBoard sz n ra)"
  shows "h_cell_view (h[a := OBoard sz' n' ra']) y = h_cell_view h y"
  using assms by (auto simp: h_cell_view_def h_lookup_update split: hcell.splits)

lemma cell_view_cands_write:
  assumes "h_lookup h a = Some (OCands xs)"
  shows "h_cell_view (h[a := OCands ys]) y = (if y = HRef a then Some (Cands ys) else h_cell_view h y)"
  using assms by (auto simp: h_cell_view_def h_lookup_update h_lookup_def split: hcell.splits)

lemma represents_parts:
  assumes "represents h b v"
  shows "\<exists>ra ras. h_lookup h b = Some (OBoard (size_attr v) (num_nums_placed v) ra) \<and>
    h_lookup h ra = Some (ORows ras) \<and> distinct ras \<and> length ras = length (rows v) \<and>
    (\<forall>i<length ras. \<exists>cells. h_lookup h (ras ! i) = Some (ORow cells) \<and>
            length cells = length (rows v ! i) \<and>
            (\<forall>j<length cells. h_cell_view h (cells ! j) = Some (rows v ! i ! j)))"
    and "\<And>i i' j j' a. h_get_cell h b i j = Inr (HRef a) \<Longrightarrow> h_get_cell h b i' j' = Inr (HRef a) \<Longrightarrow>
        i = i' \<and> j = j'"
proof -
  from assms show "\<exists>ra ras. h_lookup h b = Some (OBoard (size_attr v) (num_nums_placed v) ra) \<and>
    h_lookup h ra = Some (ORows ras) \<and> distinct ras \<and> length ras = length (rows v) \<and>
    (\<forall>i<length ras. \<exists>cells. h_lookup h (ras ! i) = Some (ORow cells) \<and>
            length cells = length (rows v ! i) \<and>
            (\<forall>j<length cells. h_cell_view h (cells ! j) = Some (rows v ! i ! j)))"
    unfolding represents_def by (elim conjE)
  fix i i' j j' a
  assume "h_get_cell h b i j = Inr (HRef a)" "h_get_cell h b i' j' = Inr (HRef a)"
  with assms show "i = i' \<and> j = j'" unfolding represents_def by (elim conjE allE[of _ i] allE[of _ i'] allE[of _ j] allE[of _ j'] allE[of _ a]) simp
qed

lemma h_get_cell_parts:
  assumes "h_lookup h b = Some (OBoard sz n ra)" "h_lookup h ra = Some (ORows ras)"
  shows "h_get_cell h b i j = Inr y \<longleftrightarrow>
           i < length ras \<and> (\<exists>cells. h_lookup h (ras ! i) = Some (ORow cells) \<and> j < length cells \<and> cells ! j = y)"
  using assms
  by (auto simp: h_get_cell_def h_row_def h_rows_def split: option.splits obj.splits)

lemma represents_cell_write:
  assumes "represents h b v" "r < length (rows v)" "h_row h b r = Inr (rowa, cells)" "c < length cells"
  shows "represents (h[rowa := ORow (cells[c := HVal x])]) b
           (v\<lparr> rows := (rows v)[r := (rows v ! r)[c := Val x]] \<rparr>)"
proof -
  let ?h = "h[rowa := ORow (cells[c := HVal x])]"
  let ?v = "v\<lparr> rows := (rows v)[r := (rows v ! r)[c := Val x]] \<rparr>"
  from represents_parts(1)[OF assms(1)] obtain ra ras where
    s: "h_lookup h b = Some (OBoard (size_attr v) (num_nums_placed v) ra)"
    "h_lookup h ra = Some (ORows ras)" "distinct ras" "length ras = length (rows v)"
    and s5: "\<forall>i<length ras. \<exists>cells. h_lookup h (ras ! i) = Some (ORow cells) \<and>
            length cells = length (rows v ! i) \<and>
            (\<forall>j<length cells. h_cell_view h (cells ! j) = Some (rows v ! i ! j))"
    by (elim exE conjE)
  note s6 = represents_parts(2)[OF assms(1)]
  from assms(3) s(1,2) have row: "rowa = ras ! r" "h_lookup h rowa = Some (ORow cells)"
    by (auto simp: h_row_def h_rows_def split: if_splits option.splits obj.splits)
  from row(2) have in_h: "rowa < length h" by (auto simp: h_lookup_def split: if_splits)
  from row(2) s(1) have b': "h_lookup ?h b = Some (OBoard (size_attr v) (num_nums_placed v) ra)"
    by (auto simp: h_lookup_update)
  from row(2) s(2) have ra': "h_lookup ?h ra = Some (ORows ras)"
    by (auto simp: h_lookup_update)
  note cv = cell_view_row_write[OF row(2), of "cells[c := HVal x]"]
  have r_len: "r < length ras" using assms(2) s(4) by simp
  have idx: "ras ! i = rowa \<longleftrightarrow> i = r" if "i < length ras" for i
    using that r_len s(3) row(1) by (auto simp: nth_eq_iff_index_eq)
  have rows': "\<exists>cells'. h_lookup ?h (ras ! i) = Some (ORow cells') \<and>
            length cells' = length (rows ?v ! i) \<and>
            (\<forall>j<length cells'. h_cell_view ?h (cells' ! j) = Some (rows ?v ! i ! j))"
    if i: "i < length ras" for i
  proof (cases "i = r")
    case True
    from s5 r_len row have old: "length cells = length (rows v ! r)"
      "\<forall>j<length cells. h_cell_view h (cells ! j) = Some (rows v ! r ! j)" by auto
    have "h_lookup ?h (ras ! i) = Some (ORow (cells[c := HVal x]))"
      using True row(1) in_h by (simp add: h_lookup_update)
    moreover have "length (cells[c := HVal x]) = length (rows ?v ! i)"
      using True old(1) assms(2) by simp
    moreover have "h_cell_view ?h (cells[c := HVal x] ! j) = Some (rows ?v ! i ! j)"
      if "j < length (cells[c := HVal x])" for j
    proof (cases "j = c")
      case True
      with \<open>i = r\<close> assms(2,4) old(1) show ?thesis by (simp add: h_cell_view_def)
    next
      case False
      with that have "cells[c := HVal x] ! j = cells ! j" "j < length cells" by simp_all
      with old(2) cv False \<open>i = r\<close> assms(2) show ?thesis by simp
    qed
    ultimately show ?thesis by blast
  next
    case False
    from s5 i obtain cells_i where
      ci: "h_lookup h (ras ! i) = Some (ORow cells_i)" "length cells_i = length (rows v ! i)"
          "\<forall>j<length cells_i. h_cell_view h (cells_i ! j) = Some (rows v ! i ! j)" by blast
    from False idx[OF i] have "h_lookup ?h (ras ! i) = Some (ORow cells_i)"
      using ci(1) by (simp add: h_lookup_update)
    with ci(2,3) False cv show ?thesis using assms(2) by auto
  qed
  have get: "h_get_cell h b i j = Inr (HRef a)" if "h_get_cell ?h b i j = Inr (HRef a)" for i j a
  proof -
    from that h_get_cell_parts[OF b' ra'] obtain cells' where
      g: "i < length ras" "h_lookup ?h (ras ! i) = Some (ORow cells')" "j < length cells'"
         "cells' ! j = HRef a" by blast
    show ?thesis
    proof (cases "i = r")
      case True
      with g row(1) in_h have c': "cells' = cells[c := HVal x]" by (simp add: h_lookup_update)
      from g(3) c' have jl: "j < length cells" by simp
      have jc: "j \<noteq> c"
      proof
        assume "j = c"
        with g(4) c' jl show False by simp
      qed
      with g(4) c' have "cells ! j = HRef a" by simp
      note this jl
      with True row g(1) h_get_cell_parts[OF s(1,2)] show ?thesis by auto
    next
      case False
      with idx[OF g(1)] g(2) have "h_lookup h (ras ! i) = Some (ORow cells')"
        by (simp add: h_lookup_update)
      with g h_get_cell_parts[OF s(1,2)] show ?thesis by auto
    qed
  qed
  show ?thesis
    unfolding represents_def
  proof (intro conjI exI[of _ ra] exI[of _ ras] allI impI)
    show "h_lookup ?h b = Some (OBoard (size_attr ?v) (num_nums_placed ?v) ra)" using b' by simp
    show "h_lookup ?h ra = Some (ORows ras)" by (rule ra')
    show "distinct ras" by (rule s(3))
    show "length ras = length (rows ?v)" using s(4) by simp
    show "\<exists>cells'. h_lookup ?h (ras ! i) = Some (ORow cells') \<and>
            length cells' = length (rows ?v ! i) \<and>
            (\<forall>j<length cells'. h_cell_view ?h (cells' ! j) = Some (rows ?v ! i ! j))"
      if "i < length ras" for i using rows'[OF that] .
    show "i = i'" "j = j'"
      if "h_get_cell ?h b i j = Inr (HRef a)" "h_get_cell ?h b i' j' = Inr (HRef a)" for i i' j j' a
      using s6[OF get[OF that(1)] get[OF that(2)]] by simp_all
  qed
qed

lemma represents_counter_write:
  assumes "represents h b v" "h_lookup h b = Some (OBoard sz n ra)"
  shows "represents (h[b := OBoard sz (n + 1) ra]) b (v\<lparr> num_nums_placed := num_nums_placed v + 1 \<rparr>)"
proof -
  let ?h = "h[b := OBoard sz (n + 1) ra]"
  let ?v = "v\<lparr> num_nums_placed := num_nums_placed v + 1 \<rparr>"
  from represents_parts(1)[OF assms(1)] assms(2) obtain ras where
    s: "sz = size_attr v" "n = num_nums_placed v"
    "h_lookup h ra = Some (ORows ras)" "distinct ras" "length ras = length (rows v)"
    and s5: "\<forall>i<length ras. \<exists>cells. h_lookup h (ras ! i) = Some (ORow cells) \<and>
            length cells = length (rows v ! i) \<and>
            (\<forall>j<length cells. h_cell_view h (cells ! j) = Some (rows v ! i ! j))"
    by auto
  note s6 = represents_parts(2)[OF assms(1)]
  from assms(2) have in_h: "b < length h" by (auto simp: h_lookup_def split: if_splits)
  have b': "h_lookup ?h b = Some (OBoard sz (n + 1) ra)" using in_h by (simp add: h_lookup_update)
  have other: "h_lookup ?h a = Some x" if "h_lookup h a = Some x" "a \<noteq> b" for a x
    using that by (simp add: h_lookup_update)
  have "ra \<noteq> b" using s(3) assms(2) by auto
  from other[OF s(3) this] have ra': "h_lookup ?h ra = Some (ORows ras)" .
  note cv = cell_view_board_write[OF assms(2), of sz "n + 1" ra]
  have rows': "\<exists>cells. h_lookup ?h (ras ! i) = Some (ORow cells) \<and>
            length cells = length (rows ?v ! i) \<and>
            (\<forall>j<length cells. h_cell_view ?h (cells ! j) = Some (rows ?v ! i ! j))"
    if i: "i < length ras" for i
  proof -
    from s5 i obtain cells where
      c: "h_lookup h (ras ! i) = Some (ORow cells)" "length cells = length (rows v ! i)"
         "\<forall>j<length cells. h_cell_view h (cells ! j) = Some (rows v ! i ! j)" by blast
    have "ras ! i \<noteq> b" using c(1) assms(2) by auto
    from other[OF c(1) this] have "h_lookup ?h (ras ! i) = Some (ORow cells)" .
    with c(2,3) cv show ?thesis by auto
  qed
  have get: "h_get_cell h b i j = Inr (HRef a)" if "h_get_cell ?h b i j = Inr (HRef a)" for i j a
  proof -
    from that h_get_cell_parts[OF b' ra'] obtain cells where
      g: "i < length ras" "h_lookup ?h (ras ! i) = Some (ORow cells)" "j < length cells"
         "cells ! j = HRef a" by blast
    from s5 g(1) obtain cells0 where c0: "h_lookup h (ras ! i) = Some (ORow cells0)" by blast
    have "ras ! i \<noteq> b" using c0 assms(2) by auto
    from other[OF c0 this] g(2) have "h_lookup h (ras ! i) = Some (ORow cells)" using c0 by simp
    with g h_get_cell_parts[OF assms(2) s(3)] show ?thesis by auto
  qed
  show ?thesis
    unfolding represents_def
  proof (intro conjI exI[of _ ra] exI[of _ ras] allI impI)
    show "h_lookup ?h b = Some (OBoard (size_attr ?v) (num_nums_placed ?v) ra)" using b' s(1,2) by simp
    show "h_lookup ?h ra = Some (ORows ras)" by (rule ra')
    show "distinct ras" by (rule s(4))
    show "length ras = length (rows ?v)" using s(5) by simp
    show "\<exists>cells'. h_lookup ?h (ras ! i) = Some (ORow cells') \<and>
            length cells' = length (rows ?v ! i) \<and>
            (\<forall>j<length cells'. h_cell_view ?h (cells' ! j) = Some (rows ?v ! i ! j))"
      if "i < length ras" for i using rows'[OF that] .
    show "i = i'" "j = j'"
      if "h_get_cell ?h b i j = Inr (HRef a)" "h_get_cell ?h b i' j' = Inr (HRef a)" for i i' j j' a
      using s6[OF get[OF that(1)] get[OF that(2)]] by simp_all
  qed
qed

lemma represents_list_write:
  assumes "represents h b v" "h_get_cell h b i j = Inr (HRef a)" "h_lookup h a = Some (OCands xs)"
  shows "represents (h[a := OCands ys]) b (v\<lparr> rows := (rows v)[i := (rows v ! i)[j := Cands ys]] \<rparr>)"
proof -
  let ?h = "h[a := OCands ys]"
  let ?v = "v\<lparr> rows := (rows v)[i := (rows v ! i)[j := Cands ys]] \<rparr>"
  from represents_parts(1)[OF assms(1)] obtain ra ras where
    s: "h_lookup h b = Some (OBoard (size_attr v) (num_nums_placed v) ra)"
    "h_lookup h ra = Some (ORows ras)" "distinct ras" "length ras = length (rows v)"
    and s5: "\<forall>i<length ras. \<exists>cells. h_lookup h (ras ! i) = Some (ORow cells) \<and>
            length cells = length (rows v ! i) \<and>
            (\<forall>j<length cells. h_cell_view h (cells ! j) = Some (rows v ! i ! j))"
    by (elim exE conjE)
  note s6 = represents_parts(2)[OF assms(1)]
  have other: "h_lookup ?h a' = Some x" if "h_lookup h a' = Some x" "a' \<noteq> a" for a' x
    using that by (simp add: h_lookup_update)
  have "b \<noteq> a" "ra \<noteq> a" using s(1,2) assms(3) by auto
  from other[OF s(1) this(1)] other[OF s(2) this(2)]
  have b': "h_lookup ?h b = Some (OBoard (size_attr v) (num_nums_placed v) ra)"
    and ra': "h_lookup ?h ra = Some (ORows ras)" by simp_all
  note cv = cell_view_cands_write[OF assms(3), of ys]
  have same_row: "h_lookup ?h (ras ! k) = h_lookup h (ras ! k)" if "k < length ras" for k
  proof -
    from s5 that obtain cells where c: "h_lookup h (ras ! k) = Some (ORow cells)" by blast
    then have "ras ! k \<noteq> a" using assms(3) by auto
    from other[OF c this] c show ?thesis by simp
  qed
  have get: "h_get_cell ?h b k l = h_get_cell h b k l" for k l
    using same_row[of k] b' ra' s(1,2)
    by (auto simp: h_get_cell_def h_row_def h_rows_def)
  from assms(2) h_get_cell_parts[OF s(1,2)] obtain cells_i where
    ci: "i < length ras" "h_lookup h (ras ! i) = Some (ORow cells_i)" "j < length cells_i"
        "cells_i ! j = HRef a" by blast
  have rows': "\<exists>cells. h_lookup ?h (ras ! k) = Some (ORow cells) \<and>
            length cells = length (rows ?v ! k) \<and>
            (\<forall>l<length cells. h_cell_view ?h (cells ! l) = Some (rows ?v ! k ! l))"
    if k: "k < length ras" for k
  proof -
    from s5 k obtain cells where
      c: "h_lookup h (ras ! k) = Some (ORow cells)" "length cells = length (rows v ! k)"
         "\<forall>l<length cells. h_cell_view h (cells ! l) = Some (rows v ! k ! l)" by blast
    have len: "length cells = length (rows ?v ! k)"
      using c(2) k s(4) by (cases "k = i") (simp_all add: nth_list_update)
    have "h_cell_view ?h (cells ! l) = Some (rows ?v ! k ! l)" if l: "l < length cells" for l
    proof (cases "cells ! l = HRef a")
      case True
      from c(1) l True k h_get_cell_parts[OF s(1,2), of k l "HRef a"]
      have "h_get_cell h b k l = Inr (HRef a)" by auto
      from s6[OF this assms(2)] have kl: "k = i" "l = j" by simp_all
      with True cv l c(2) k s(4) show ?thesis by simp
    next
      case False
      have "k \<noteq> i \<or> l \<noteq> j" using False c(1) ci(2,4) by auto
      then have "rows ?v ! k ! l = rows v ! k ! l"
        using k s(4) by (cases "k = i") (auto simp: nth_list_update)
      with False cv c(3) l show ?thesis by simp
    qed
    with len same_row[OF k] c(1) show ?thesis by auto
  qed
  show ?thesis
    unfolding represents_def
  proof (intro conjI exI[of _ ra] exI[of _ ras] allI impI)
    show "h_lookup ?h b = Some (OBoard (size_attr ?v) (num_nums_placed ?v) ra)" using b' by simp
    show "h_lookup ?h ra = Some (ORows ras)" by (rule ra')
    show "distinct ras" by (rule s(3))
    show "length ras = length (rows ?v)" using s(4) by simp
    show "\<exists>cells'. h_lookup ?h (ras ! k) = Some (ORow cells') \<and>
            length cells' = length (rows ?v ! k) \<and>
            (\<forall>l<length cells'. h_cell_view ?h (cells' ! l) = Some (rows ?v ! k ! l))"
      if "k < length ras" for k using rows'[OF that] .
    show "k = k'" "l = l'"
      if "h_get_cell ?h b k l = Inr (HRef a')" "h_get_cell ?h b k' l' = Inr (HRef a')" for k k' l l' a'
      using s6[of k l a' k' l'] that unfolding get by simp_all
  qed
qed

lemma refine_remove_at:
  assumes "represents h b v"
  shows "case remove_at (rows v) i j e of
           Inl err \<Rightarrow> h_remove_at h b i j e = (Inl err, h)
         | Inr rs' \<Rightarrow> \<exists>h'. h_remove_at h b i j e = (Inr (), h') \<and> represents h' b (v\<lparr> rows := rs' \<rparr>)"
proof (cases "get_cell (rows v) i j")
  case (Inl err)
  with represents_get_cell[OF assms, of i j] show ?thesis
    by (simp add: remove_at_def h_remove_at_def)
next
  case (Inr x)
  then have ij: "i < length (rows v)" "j < length (rows v ! i)" and x: "x = rows v ! i ! j"
    by (auto simp: get_cell_def split: if_splits)
  from represents_get_cell[OF assms, of i j] Inr obtain y where
    y: "h_get_cell h b i j = Inr y" "h_cell_view h y = Some x" by auto
  have ra: "remove_at (rows v) i j e = Inr ((rows v)[i := (rows v ! i)[j := remove_if_exists x e]])"
    using Inr ij by (simp add: remove_at_def set_cell_def)
  have same: "v\<lparr> rows := (rows v)[i := (rows v ! i)[j := x]] \<rparr> = v"
    using x by simp
  show ?thesis
  proof (cases y)
    case (HVal n)
    with y(2) have "x = Val n" by (simp add: h_cell_view_def)
    with ra y(1) HVal assms same show ?thesis
      by (simp add: h_remove_at_def h_remove_if_exists_def)
  next
    case (HRef a)
    with y(2) obtain xs where xs: "h_lookup h a = Some (OCands xs)" "x = Cands xs"
      by (auto simp: h_cell_view_def split: option.splits obj.splits)
    show ?thesis
    proof (cases "e \<in> set xs")
      case True
      from represents_list_write[OF assms y(1)[unfolded HRef] xs(1), of "remove1 e xs"]
      have "represents (h[a := OCands (remove1 e xs)]) b
              (v\<lparr> rows := (rows v)[i := (rows v ! i)[j := Cands (remove1 e xs)]] \<rparr>)" .
      with ra y(1) HRef xs True show ?thesis
        by (simp add: h_remove_at_def h_remove_if_exists_def)
    next
      case False
      with ra y(1) HRef xs assms same show ?thesis
        by (simp add: h_remove_at_def h_remove_if_exists_def)
    qed
  qed
qed

lemma refine_remove_loop:
  assumes "represents h b v"
  shows "case remove_loop (rows v) ps e of
           Inl err \<Rightarrow> fst (h_remove_loop h b ps e) = Inl err
         | Inr rs' \<Rightarrow> \<exists>h'. h_remove_loop h b ps e = (Inr (), h') \<and> represents h' b (v\<lparr> rows := rs' \<rparr>)"
  using assms
proof (induction ps arbitrary: h v)
  case Nil
  then show ?case by simp
next
  case (Cons p ps)
  obtain i j where p: "p = (i, j)" by (cases p)
  show ?case
  proof (cases "remove_at (rows v) i j e")
    case (Inl err)
    with refine_remove_at[OF Cons.prems, of i j e] show ?thesis unfolding p by simp
  next
    case (Inr rs1)
    with refine_remove_at[OF Cons.prems, of i j e] obtain h1 where
      h1: "h_remove_at h b i j e = (Inr (), h1)" "represents h1 b (v\<lparr> rows := rs1 \<rparr>)" by auto
    from Cons.IH[OF h1(2)] Inr h1(1) show ?thesis
      unfolding p by (cases "remove_loop rs1 ps e") simp_all
  qed
qed

text \<open>
  On a board that shares no list, \<^verbatim>\<open>update\<close> in the store does what \<^verbatim>\<open>update\<close> of the
  value layer does: the same exception, or a store in which the board is the updated value.
\<close>

lemma refine_update:
  assumes "represents h b v"
  shows "case update v r c x of
           Inl err \<Rightarrow> fst (h_update h b r c x) = Inl err
         | Inr v' \<Rightarrow> \<exists>h'. h_update h b r c x = (Inr (), h') \<and> represents h' b v'"
proof (cases "r < length (rows v)")
  case False
  with represents_row_error[OF assms False] show ?thesis
    by (simp add: update_def set_cell_def h_update_def)
next
  case True
  from represents_row[OF assms True] obtain rowa cells where
    row: "h_row h b r = Inr (rowa, cells)" "h_lookup h rowa = Some (ORow cells)"
         "length cells = length (rows v ! r)" by blast
  show ?thesis
  proof (cases "c < length cells")
    case False
    with row True show ?thesis by (simp add: update_def set_cell_def h_update_def)
  next
    case c: True
    define rs1 where "rs1 = (rows v)[r := (rows v ! r)[c := Val x]]"
    define h1 where "h1 = h[rowa := ORow (cells[c := HVal x])]"
    have sc: "set_cell (rows v) r c (Val x) = Inr rs1"
      using True c row(3) by (simp add: set_cell_def rs1_def)
    have r1: "represents h1 b (v\<lparr> rows := rs1 \<rparr>)"
      unfolding h1_def rs1_def by (rule represents_cell_write[OF assms True row(1) c])
    from represents_parts(1)[OF r1] obtain ra where
      b1: "h_lookup h1 b = Some (OBoard (size_attr v) (num_nums_placed v) ra)" by auto
    define h2 where "h2 = h1[b := OBoard (size_attr v) (num_nums_placed v + 1) ra]"
    define v2 where "v2 = v\<lparr> rows := rs1, num_nums_placed := num_nums_placed v + 1 \<rparr>"
    have r2: "represents h2 b v2"
      using represents_counter_write[OF r1 b1] by (simp add: h2_def v2_def)
    let ?ps = "concat (map (\<lambda>i. [(r, i), (i, c)]) [0..<size_attr v])"
    have hu: "h_update h b r c x =
        (case h_remove_loop h2 b ?ps x of
           (Inl e, h3) \<Rightarrow> (Inl e, h3)
         | (Inr u, h3) \<Rightarrow>
             (case subgrid_coordinates r c of
                Inl e \<Rightarrow> (Inl e, h3)
              | Inr coords \<Rightarrow> h_remove_loop h3 b coords x))"
      using row(1) c b1 by (simp add: h_update_def Let_def h1_def[symmetric] h2_def[symmetric])
    have vu: "update v r c x =
        (case remove_loop rs1 ?ps x of
           Inl e \<Rightarrow> Inl e
         | Inr rs2 \<Rightarrow>
             (case subgrid_coordinates r c of
                Inl e \<Rightarrow> Inl e
              | Inr coords \<Rightarrow>
                  (case remove_loop rs2 coords x of
                     Inl e \<Rightarrow> Inl e
                   | Inr rs3 \<Rightarrow> Inr (v\<lparr> num_nums_placed := num_nums_placed v + 1, rows := rs3 \<rparr>))))"
      by (simp add: update_def sc)
    have rows2: "rows v2 = rs1" by (simp add: v2_def)
    show ?thesis
    proof (cases "remove_loop rs1 ?ps x")
      case (Inl err)
      with refine_remove_loop[OF r2, of ?ps x] rows2 have "fst (h_remove_loop h2 b ?ps x) = Inl err"
        by simp
      with Inl show ?thesis unfolding hu vu by (auto split: prod.splits)
    next
      case (Inr rs2)
      with refine_remove_loop[OF r2, of ?ps x] rows2 obtain h3 where
        h3: "h_remove_loop h2 b ?ps x = (Inr (), h3)" "represents h3 b (v2\<lparr> rows := rs2 \<rparr>)"
        by auto
      show ?thesis
      proof (cases "subgrid_coordinates r c")
        case (Inl err)
        with Inr h3(1) show ?thesis unfolding hu vu by simp
      next
        case coords: (Inr coords)
        show ?thesis
        proof (cases "remove_loop rs2 coords x")
          case (Inl err)
          with refine_remove_loop[OF h3(2), of coords x]
          have "fst (h_remove_loop h3 b coords x) = Inl err" by simp
          with Inl Inr coords h3(1) show ?thesis unfolding hu vu by simp
        next
          case rs3: (Inr rs3)
          with refine_remove_loop[OF h3(2), of coords x] obtain h' where
            h': "h_remove_loop h3 b coords x = (Inr (), h')"
                "represents h' b (v2\<lparr> rows := rs2, rows := rs3 \<rparr>)" by auto
          have "v2\<lparr> rows := rs2, rows := rs3 \<rparr> = v\<lparr> num_nums_placed := num_nums_placed v + 1, rows := rs3 \<rparr>"
            by (simp add: v2_def)
          with h' rs3 Inr coords h3(1) show ?thesis unfolding hu vu by simp
        qed
      qed
    qed
  qed
qed

lemma set_cell_refs: "set (cell_refs cells) = {a. HRef a \<in> set cells}"
  by (induction cells rule: cell_refs.induct) auto

lemma h_lookup_Some_less: "h_lookup h a = Some x \<Longrightarrow> a < length h"
  by (auto simp: h_lookup_def split: if_splits)

lemma h_lookup_append: "a < length h \<Longrightarrow> h_lookup (h @ xs) a = h_lookup h a"
  by (simp add: h_lookup_def nth_append)

lemma h_lookup_append_new: "h_lookup (h @ [x]) (length h) = Some x"
  by (simp add: h_lookup_def)

lemma h_lookup_nth: "a < length h \<Longrightarrow> h_lookup h a = Some (h ! a)"
  by (simp add: h_lookup_def)

lemma copy_cells_fresh:
  assumes "h_lookup h y = Some (ORow ys)"
    and "\<forall>x\<in>set (cell_refs cells). x \<noteq> y \<and> m x = None \<and> (\<exists>xs. h_lookup h x = Some (OCands xs))"
    and "distinct (cell_refs cells)"
  shows "\<exists>m' h' zs. h_copy_cells h m y cells = (Inr (), m', h') \<and>
           h_lookup h' y = Some (ORow (ys @ zs)) \<and> length zs = length cells \<and>
           (\<forall>j<length cells. h_cell_view h' (zs ! j) = h_cell_view h (cells ! j)) \<and>
           (\<forall>x\<in>set (cell_refs zs). length h \<le> x \<and> x < length h') \<and>
           distinct (cell_refs zs) \<and>
           length h \<le> length h' \<and> (\<forall>a<length h. a \<noteq> y \<longrightarrow> h' ! a = h ! a) \<and>
           (\<forall>x. x \<notin> set (cell_refs cells) \<longrightarrow> m' x = m x)"
  using assms
proof (induction cells arbitrary: h m ys)
  case Nil
  then show ?case by simp
next
  case (Cons c cells)
  from Cons.prems(1) have y: "y < length h" by (rule h_lookup_Some_less)
  show ?case
  proof (cases c)
    case (HVal n)
    define h2 where "h2 = h[y := ORow (ys @ [HVal n])]"
    have l2: "h_lookup h2 y = Some (ORow (ys @ [HVal n]))" using y by (simp add: h2_def h_lookup_update)
    have keep: "h_lookup h2 x = h_lookup h x" if "x \<noteq> y" for x
      using that by (simp add: h2_def h_lookup_update)
    have p2: "\<forall>x\<in>set (cell_refs cells). x \<noteq> y \<and> m x = None \<and> (\<exists>xs. h_lookup h2 x = Some (OCands xs))"
      using Cons.prems(2) HVal keep by auto
    have d2: "distinct (cell_refs cells)" using Cons.prems(3) HVal by simp
    from Cons.IH[OF l2 p2 d2] obtain m' h' zs where
      ih: "h_copy_cells h2 m y cells = (Inr (), m', h')"
          "h_lookup h' y = Some (ORow ((ys @ [HVal n]) @ zs))" "length zs = length cells"
          "\<forall>j<length cells. h_cell_view h' (zs ! j) = h_cell_view h2 (cells ! j)"
          "\<forall>x\<in>set (cell_refs zs). length h2 \<le> x \<and> x < length h'"
          "distinct (cell_refs zs)" "length h2 \<le> length h'"
          "\<forall>a<length h2. a \<noteq> y \<longrightarrow> h' ! a = h2 ! a"
          "\<forall>x. x \<notin> set (cell_refs cells) \<longrightarrow> m' x = m x"
      by blast
    have run: "h_copy_cells h m y (c # cells) = (Inr (), m', h')"
      using ih(1) Cons.prems(1) HVal by (simp add: h_copy_cell_def h2_def)
    have len2: "length h2 = length h" by (simp add: h2_def)
    have cv: "h_cell_view h2 x = h_cell_view h x" for x
      unfolding h2_def by (rule cell_view_row_write[OF Cons.prems(1)])
    have views: "h_cell_view h' ((HVal n # zs) ! j) = h_cell_view h ((c # cells) ! j)"
      if "j < length (c # cells)" for j
      using that ih(4) cv HVal by (cases j) (simp_all add: h_cell_view_def)
    have frame: "\<forall>a<length h. a \<noteq> y \<longrightarrow> h' ! a = h ! a"
      using ih(8) len2 by (simp add: h2_def)
    show ?thesis
    proof (intro exI[of _ m'] exI[of _ h'] exI[of _ "HVal n # zs"] conjI)
      show "h_copy_cells h m y (c # cells) = (Inr (), m', h')" by (rule run)
      show "h_lookup h' y = Some (ORow (ys @ HVal n # zs))" using ih(2) by simp
      show "length (HVal n # zs) = length (c # cells)" using ih(3) by simp
      show "\<forall>j<length (c # cells). h_cell_view h' ((HVal n # zs) ! j) = h_cell_view h ((c # cells) ! j)"
        using views by blast
      show "\<forall>x\<in>set (cell_refs (HVal n # zs)). length h \<le> x \<and> x < length h'"
        using ih(5) len2 by simp
      show "distinct (cell_refs (HVal n # zs))" using ih(6) by simp
      show "length h \<le> length h'" using ih(7) len2 by simp
      show "\<forall>a<length h. a \<noteq> y \<longrightarrow> h' ! a = h ! a" by (rule frame)
      show "\<forall>x. x \<notin> set (cell_refs (c # cells)) \<longrightarrow> m' x = m x" using ih(9) HVal by simp
    qed
  next
    case (HRef x)
    from Cons.prems(2) HRef obtain xs where
      x: "x \<noteq> y" "m x = None" "h_lookup h x = Some (OCands xs)" by auto
    from x(3) have xl: "x < length h" by (rule h_lookup_Some_less)
    define h1 where "h1 = h @ [OCands xs]"
    define m1 where "m1 = m(x \<mapsto> length h)"
    define h2 where "h2 = h1[y := ORow (ys @ [HRef (length h)])]"
    have cc: "h_copy_cell h m c = (Inr (HRef (length h)), m1, h1)"
      using x HRef by (simp add: h_copy_cell_def h_copy_cands_def h1_def m1_def)
    have l1: "h_lookup h1 y = Some (ORow ys)" using Cons.prems(1) y by (simp add: h1_def h_lookup_append)
    have l2: "h_lookup h2 y = Some (ORow (ys @ [HRef (length h)]))"
      using y by (simp add: h2_def h1_def h_lookup_update)
    have len2: "length h2 = Suc (length h)" by (simp add: h2_def h1_def)
    have keep: "h_lookup h2 a = h_lookup h a" if "a \<noteq> y" "a < length h" for a
      using that by (simp add: h2_def h1_def h_lookup_update h_lookup_append)
    have new: "h_lookup h2 (length h) = Some (OCands xs)"
      using y by (simp add: h2_def h1_def h_lookup_update h_lookup_def)
    have p2: "\<forall>x'\<in>set (cell_refs cells). x' \<noteq> y \<and> m1 x' = None \<and> (\<exists>xs. h_lookup h2 x' = Some (OCands xs))"
    proof
      fix x' assume x': "x' \<in> set (cell_refs cells)"
      with Cons.prems(2) HRef obtain xs' where
        a: "x' \<noteq> y" "m x' = None" "h_lookup h x' = Some (OCands xs')" by auto
      from x' Cons.prems(3) HRef have "x' \<noteq> x" by auto
      with a keep[OF a(1) h_lookup_Some_less[OF a(3)]]
      show "x' \<noteq> y \<and> m1 x' = None \<and> (\<exists>xs. h_lookup h2 x' = Some (OCands xs))"
        by (simp add: m1_def)
    qed
    have d2: "distinct (cell_refs cells)" using Cons.prems(3) HRef by simp
    from Cons.IH[OF l2 p2 d2] obtain m' h' zs where
      ih: "h_copy_cells h2 m1 y cells = (Inr (), m', h')"
          "h_lookup h' y = Some (ORow ((ys @ [HRef (length h)]) @ zs))" "length zs = length cells"
          "\<forall>j<length cells. h_cell_view h' (zs ! j) = h_cell_view h2 (cells ! j)"
          "\<forall>x\<in>set (cell_refs zs). length h2 \<le> x \<and> x < length h'"
          "distinct (cell_refs zs)" "length h2 \<le> length h'"
          "\<forall>a<length h2. a \<noteq> y \<longrightarrow> h' ! a = h2 ! a"
          "\<forall>x. x \<notin> set (cell_refs cells) \<longrightarrow> m' x = m1 x"
      by blast
    have run: "h_copy_cells h m y (c # cells) = (Inr (), m', h')"
      using ih(1) cc l1 by (simp add: h2_def)
    have newl: "h_lookup h' (length h) = Some (OCands xs)"
    proof -
      have "length h < length h2" "length h \<noteq> y" using len2 y by simp_all
      with ih(8) have "h' ! length h = h2 ! length h" by simp
      moreover have "length h < length h'" using ih(7) len2 by simp
      moreover from new len2 have "h2 ! length h = OCands xs" by (simp add: h_lookup_def)
      ultimately show ?thesis by (simp add: h_lookup_def)
    qed
    have cv2: "h_cell_view h2 (cells ! j) = h_cell_view h (cells ! j)" if "j < length cells" for j
    proof (cases "cells ! j")
      case (HVal k)
      then show ?thesis by (simp add: h_cell_view_def)
    next
      case (HRef x')
      with that have "x' \<in> set (cell_refs cells)" by (auto simp: set_cell_refs dest: nth_mem)
      with Cons.prems(2) \<open>c = HRef x\<close> obtain xs' where
        a: "x' \<noteq> y" "h_lookup h x' = Some (OCands xs')" by auto
      from keep[OF a(1) h_lookup_Some_less[OF a(2)]] HRef show ?thesis by (simp add: h_cell_view_def)
    qed
    have views: "h_cell_view h' ((HRef (length h) # zs) ! j) = h_cell_view h ((c # cells) ! j)"
      if "j < length (c # cells)" for j
    proof (cases j)
      case 0
      with newl x(3) HRef show ?thesis by (simp add: h_cell_view_def)
    next
      case (Suc j')
      with that ih(4) cv2[of j'] show ?thesis by simp
    qed
    have frame: "h' ! a = h ! a" if "a < length h" "a \<noteq> y" for a
    proof -
      from that len2 ih(8) have "h' ! a = h2 ! a" by simp
      also have "\<dots> = h ! a" using that by (simp add: h2_def h1_def nth_append)
      finally show ?thesis .
    qed
    show ?thesis
    proof (intro exI[of _ m'] exI[of _ h'] exI[of _ "HRef (length h) # zs"] conjI)
      show "h_copy_cells h m y (c # cells) = (Inr (), m', h')" by (rule run)
      show "h_lookup h' y = Some (ORow (ys @ HRef (length h) # zs))" using ih(2) by simp
      show "length (HRef (length h) # zs) = length (c # cells)" using ih(3) by simp
      show "\<forall>j<length (c # cells). h_cell_view h' ((HRef (length h) # zs) ! j) = h_cell_view h ((c # cells) ! j)"
        using views by blast
      show "\<forall>x\<in>set (cell_refs (HRef (length h) # zs)). length h \<le> x \<and> x < length h'"
        using ih(5,7) len2 by auto
      show "distinct (cell_refs (HRef (length h) # zs))" using ih(5,6) len2 by auto
      show "length h \<le> length h'" using ih(7) len2 by simp
      show "\<forall>a<length h. a \<noteq> y \<longrightarrow> h' ! a = h ! a" using frame by blast
      show "\<forall>x. x \<notin> set (cell_refs (c # cells)) \<longrightarrow> m' x = m x"
        using ih(9) HRef by (simp add: m1_def)
    qed
  qed
qed

lemma cell_view_cong:
  assumes "\<forall>a. c = HRef a \<longrightarrow> h_lookup h' a = h_lookup h a"
  shows "h_cell_view h' c = h_cell_view h c"
  using assms by (cases c) (simp_all add: h_cell_view_def)

lemma cell_refs_nth:
  assumes "j < length cells" "cells ! j = HRef a"
  shows "a \<in> set (cell_refs cells)"
  using assms by (auto simp: set_cell_refs dest: nth_mem)

lemma copy_row_fresh:
  assumes "h_lookup h a = Some (ORow cells)" "m a = None"
    and "\<forall>x\<in>set (cell_refs cells). m x = None \<and> (\<exists>xs. h_lookup h x = Some (OCands xs))"
    and "distinct (cell_refs cells)"
  shows "\<exists>m' h' zs. h_copy_row h m a = (Inr (length h), m', h') \<and>
           h_lookup h' (length h) = Some (ORow zs) \<and> length zs = length cells \<and>
           (\<forall>j<length cells. h_cell_view h' (zs ! j) = h_cell_view h (cells ! j)) \<and>
           (\<forall>x\<in>set (cell_refs zs). length h < x \<and> x < length h') \<and>
           distinct (cell_refs zs) \<and>
           length h < length h' \<and> (\<forall>a'<length h. h' ! a' = h ! a') \<and>
           (\<forall>x. x \<notin> set (cell_refs cells) \<longrightarrow> x \<noteq> a \<longrightarrow> m' x = m x)"
proof -
  define h1 where "h1 = h @ [ORow []]"
  define m1 where "m1 = m(a \<mapsto> length h)"
  have l1: "h_lookup h1 (length h) = Some (ORow [])" by (simp add: h1_def h_lookup_append_new)
  have keep: "h_lookup h1 x = h_lookup h x" if "x < length h" for x
    using that by (simp add: h1_def h_lookup_append)
  have p1: "\<forall>x\<in>set (cell_refs cells). x \<noteq> length h \<and> m1 x = None \<and> (\<exists>xs. h_lookup h1 x = Some (OCands xs))"
  proof
    fix x assume "x \<in> set (cell_refs cells)"
    with assms(3) obtain xs where x: "m x = None" "h_lookup h x = Some (OCands xs)" by blast
    from x(2) have xl: "x < length h" by (rule h_lookup_Some_less)
    from x(2) assms(1) have "x \<noteq> a" by auto
    with x xl keep[OF xl] show "x \<noteq> length h \<and> m1 x = None \<and> (\<exists>xs. h_lookup h1 x = Some (OCands xs))"
      by (simp add: m1_def)
  qed
  from copy_cells_fresh[OF l1 p1 assms(4)] obtain m' h' zs where
    c: "h_copy_cells h1 m1 (length h) cells = (Inr (), m', h')"
       "h_lookup h' (length h) = Some (ORow ([] @ zs))" "length zs = length cells"
       "\<forall>j<length cells. h_cell_view h' (zs ! j) = h_cell_view h1 (cells ! j)"
       "\<forall>x\<in>set (cell_refs zs). length h1 \<le> x \<and> x < length h'"
       "distinct (cell_refs zs)" "length h1 \<le> length h'"
       "\<forall>a'<length h1. a' \<noteq> length h \<longrightarrow> h' ! a' = h1 ! a'"
       "\<forall>x. x \<notin> set (cell_refs cells) \<longrightarrow> m' x = m1 x"
    by blast
  have len1: "length h1 = Suc (length h)" by (simp add: h1_def)
  have run: "h_copy_row h m a = (Inr (length h), m', h')"
    using assms(1,2) c(1) by (simp add: h_copy_row_def h1_def m1_def)
  have views: "h_cell_view h' (zs ! j) = h_cell_view h (cells ! j)" if "j < length cells" for j
  proof -
    have "h_cell_view h1 (cells ! j) = h_cell_view h (cells ! j)"
    proof (rule cell_view_cong, intro allI impI)
      fix x assume "cells ! j = HRef x"
      from cell_refs_nth[OF that this] assms(3) obtain xs where "h_lookup h x = Some (OCands xs)" by blast
      from keep[OF h_lookup_Some_less[OF this]] show "h_lookup h1 x = h_lookup h x" .
    qed
    with c(4) that show ?thesis by simp
  qed
  have frame: "h' ! a' = h ! a'" if "a' < length h" for a'
  proof -
    from that c(8) len1 have "h' ! a' = h1 ! a'" by simp
    with that show ?thesis by (simp add: h1_def nth_append)
  qed
  show ?thesis
  proof (intro exI[of _ m'] exI[of _ h'] exI[of _ zs] conjI)
    show "h_copy_row h m a = (Inr (length h), m', h')" by (rule run)
    show "h_lookup h' (length h) = Some (ORow zs)" using c(2) by simp
    show "length zs = length cells" by (rule c(3))
    show "\<forall>j<length cells. h_cell_view h' (zs ! j) = h_cell_view h (cells ! j)" using views by blast
    show "\<forall>x\<in>set (cell_refs zs). length h < x \<and> x < length h'" using c(5) len1 by auto
    show "distinct (cell_refs zs)" by (rule c(6))
    show "length h < length h'" using c(7) len1 by simp
    show "\<forall>a'<length h. h' ! a' = h ! a'" using frame by blast
    show "\<forall>x. x \<notin> set (cell_refs cells) \<longrightarrow> x \<noteq> a \<longrightarrow> m' x = m x" using c(9) by (simp add: m1_def)
  qed
qed

lemma cell_refs_index:
  assumes "distinct (cell_refs cs)" "j < length cs" "j' < length cs" "cs ! j = HRef x" "cs ! j' = HRef x"
  shows "j = j'"
  using assms
proof (induction cs arbitrary: j j')
  case Nil
  then show ?case by simp
next
  case (Cons c cs)
  show ?case
  proof (cases j)
    case 0
    show ?thesis
    proof (cases j')
      case 0
      with \<open>j = 0\<close> show ?thesis by simp
    next
      case (Suc k')
      with Cons.prems 0 have "c = HRef x" "x \<in> set (cell_refs cs)"
        by (auto intro: cell_refs_nth)
      with Cons.prems(1) show ?thesis by simp
    qed
  next
    case (Suc k)
    show ?thesis
    proof (cases j')
      case 0
      with Cons.prems Suc have "c = HRef x" "x \<in> set (cell_refs cs)"
        by (auto intro: cell_refs_nth)
      with Cons.prems(1) show ?thesis by simp
    next
      case j': (Suc k')
      have "distinct (cell_refs cs)" using Cons.prems(1) by (cases c) simp_all
      from Cons.IH[OF this, of k k'] Cons.prems Suc j' show ?thesis by simp
    qed
  qed
qed

lemma concat_index:
  assumes "distinct (concat xss)" "k < length xss" "k' < length xss" "x \<in> set (xss ! k)" "x \<in> set (xss ! k')"
  shows "k = k'"
  using assms
proof (induction xss arbitrary: k k')
  case Nil
  then show ?case by simp
next
  case (Cons xs xss)
  from Cons.prems(1) have d: "distinct (concat xss)" "set xs \<inter> set (concat xss) = {}" by auto
  show ?case
  proof (cases k)
    case 0
    show ?thesis
    proof (cases k')
      case 0
      with \<open>k = 0\<close> show ?thesis by simp
    next
      case (Suc l')
      with Cons.prems 0 have "x \<in> set xs" "x \<in> set (concat xss)" by auto
      with d(2) show ?thesis by blast
    qed
  next
    case (Suc l)
    show ?thesis
    proof (cases k')
      case 0
      with Cons.prems Suc have "x \<in> set xs" "x \<in> set (concat xss)" by auto
      with d(2) show ?thesis by blast
    next
      case k': (Suc l')
      from Cons.IH[OF d(1), of l l'] Cons.prems Suc k' show ?thesis by simp
    qed
  qed
qed

lemma distinct_cell_refs:
  assumes "\<And>j j' x. j < length cs \<Longrightarrow> j' < length cs \<Longrightarrow> cs ! j = HRef x \<Longrightarrow> cs ! j' = HRef x \<Longrightarrow> j = j'"
  shows "distinct (cell_refs cs)"
  using assms
proof (induction cs)
  case Nil
  then show ?case by simp
next
  case (Cons c cs)
  have ih: "distinct (cell_refs cs)"
  proof (rule Cons.IH)
    fix j j' x assume "j < length cs" "j' < length cs" "cs ! j = HRef x" "cs ! j' = HRef x"
    with Cons.prems[of "Suc j" "Suc j'" x] show "j = j'" by simp
  qed
  show ?case
  proof (cases c)
    case (HVal n)
    with ih show ?thesis by simp
  next
    case (HRef x)
    have "x \<notin> set (cell_refs cs)"
    proof
      assume "x \<in> set (cell_refs cs)"
      then obtain j where "j < length cs" "cs ! j = HRef x"
        by (auto simp: set_cell_refs in_set_conv_nth)
      with Cons.prems[of 0 "Suc j" x] HRef show False by simp
    qed
    with ih HRef show ?thesis by simp
  qed
qed

lemma distinct_concat_map:
  assumes "distinct as" "\<And>a. a \<in> set as \<Longrightarrow> distinct (f a)"
    "\<And>a a'. a \<in> set as \<Longrightarrow> a' \<in> set as \<Longrightarrow> a \<noteq> a' \<Longrightarrow> set (f a) \<inter> set (f a') = {}"
  shows "distinct (concat (map f as))"
  using assms
proof (induction as)
  case Nil
  then show ?case by simp
next
  case (Cons a as)
  have "distinct (concat (map f as))"
    by (rule Cons.IH) (use Cons.prems in auto)
  moreover have "distinct (f a)" using Cons.prems(2) by simp
  moreover have "set (f a) \<inter> set (concat (map f as)) = {}"
  proof -
    have "set (f a) \<inter> set (f a') = {}" if "a' \<in> set as" for a'
      using Cons.prems(1) Cons.prems(3)[of a a'] that by auto
    then show ?thesis by auto
  qed
  ultimately show ?case by simp
qed

lemma row_cells_Some: "h_lookup h a = Some (ORow cs) \<Longrightarrow> row_cells h a = cs"
  by (simp add: row_cells_def)

lemma copy_row_list_fresh:
  assumes "h_lookup h y = Some (ORows ys)"
    and "distinct as"
    and "\<forall>a\<in>set as. m a = None \<and> (\<exists>cells. h_lookup h a = Some (ORow cells))"
    and "\<forall>a\<in>set as. \<forall>x\<in>set (cell_refs (row_cells h a)). m x = None \<and> (\<exists>xs. h_lookup h x = Some (OCands xs))"
    and "distinct (concat (map (\<lambda>a. cell_refs (row_cells h a)) as))"
  shows "\<exists>m' h' zs. h_copy_row_list h m y as = (Inr (), m', h') \<and>
           h_lookup h' y = Some (ORows (ys @ zs)) \<and> length zs = length as \<and>
           (\<forall>k<length as. length h \<le> zs ! k \<and> zs ! k < length h' \<and>
              (\<exists>cs. h_lookup h' (zs ! k) = Some (ORow cs) \<and> length cs = length (row_cells h (as ! k)) \<and>
                 (\<forall>j<length cs. h_cell_view h' (cs ! j) = h_cell_view h (row_cells h (as ! k) ! j)))) \<and>
           (\<forall>x\<in>set (concat (map (\<lambda>z. cell_refs (row_cells h' z)) zs)). length h \<le> x \<and> x < length h') \<and>
           distinct (concat (map (\<lambda>z. cell_refs (row_cells h' z)) zs)) \<and> distinct zs \<and>
           length h \<le> length h' \<and> (\<forall>a<length h. a \<noteq> y \<longrightarrow> h' ! a = h ! a)"
  using assms
proof (induction as arbitrary: h m ys)
  case Nil
  show ?case
    by (rule exI[of _ m], rule exI[of _ h], rule exI[of _ "[]"]) (use Nil in simp)
next
  case (Cons a as)
  from Cons.prems(3) obtain cells where a: "m a = None" "h_lookup h a = Some (ORow cells)" by auto
  have rc: "row_cells h a = cells" using a(2) by (rule row_cells_Some)
  have ca: "\<forall>x\<in>set (cell_refs cells). m x = None \<and> (\<exists>xs. h_lookup h x = Some (OCands xs))"
    using Cons.prems(4) rc by auto
  have da: "distinct (cell_refs cells)" using Cons.prems(5) rc by simp
  from copy_row_fresh[OF a(2) a(1) ca da] obtain m1 h1 zs0 where
    r: "h_copy_row h m a = (Inr (length h), m1, h1)"
       "h_lookup h1 (length h) = Some (ORow zs0)" "length zs0 = length cells"
       "\<forall>j<length cells. h_cell_view h1 (zs0 ! j) = h_cell_view h (cells ! j)"
       "\<forall>x\<in>set (cell_refs zs0). length h < x \<and> x < length h1"
       "distinct (cell_refs zs0)" "length h < length h1" "\<forall>a'<length h. h1 ! a' = h ! a'"
       "\<forall>x. x \<notin> set (cell_refs cells) \<longrightarrow> x \<noteq> a \<longrightarrow> m1 x = m x"
    by blast
  have yl: "y < length h" using Cons.prems(1) by (rule h_lookup_Some_less)
  have y1: "h_lookup h1 y = Some (ORows ys)"
    using r(7,8) yl Cons.prems(1) by (simp add: h_lookup_def)
  define h2 where "h2 = h1[y := ORows (ys @ [length h])]"
  have len2: "length h2 = length h1" by (simp add: h2_def)
  have nth2: "h2 ! x = h1 ! x" if "x \<noteq> y" for x using that by (simp add: h2_def)
  have keep2: "h_lookup h2 x = h_lookup h x" if "x < length h" "x \<noteq> y" for x
    using that r(7,8) by (simp add: h2_def h_lookup_def)
  have y2: "h_lookup h2 y = Some (ORows (ys @ [length h]))"
    using yl r(7) by (simp add: h2_def h_lookup_def)
  have ay: "a \<noteq> y" using a(2) Cons.prems(1) by auto
  have row_as: "a' \<noteq> y \<and> a' < length h \<and> a' \<noteq> a \<and> a' \<notin> set (cell_refs cells) \<and> m a' = None \<and>
      (\<exists>cs. h_lookup h a' = Some (ORow cs))" if "a' \<in> set as" for a'
  proof -
    from Cons.prems(3) that have "m a' = None \<and> (\<exists>cs. h_lookup h a' = Some (ORow cs))"
      by (meson list.set_intros(2))
    then obtain cs where c: "m a' = None" "h_lookup h a' = Some (ORow cs)" by blast
    from c(2) Cons.prems(1) have "a' \<noteq> y" by auto
    moreover from c(2) have "a' < length h" by (rule h_lookup_Some_less)
    moreover from that Cons.prems(2) have "a' \<noteq> a" by auto
    moreover from c(2) ca have "a' \<notin> set (cell_refs cells)" by auto
    ultimately show ?thesis using c by blast
  qed
  have rc2: "row_cells h2 a' = row_cells h a'" if "a' \<in> set as" for a'
    using row_as[OF that] keep2[of a'] by (simp add: row_cells_def)
  have R2: "\<forall>a'\<in>set as. m1 a' = None \<and> (\<exists>cells. h_lookup h2 a' = Some (ORow cells))"
  proof
    fix a' assume "a' \<in> set as"
    from row_as[OF this] r(9) keep2[of a']
    show "m1 a' = None \<and> (\<exists>cells. h_lookup h2 a' = Some (ORow cells))" by auto
  qed
  have ref_as: "x \<noteq> y \<and> x < length h \<and> x \<noteq> a \<and> x \<notin> set (cell_refs cells) \<and> m x = None \<and>
      (\<exists>xs. h_lookup h x = Some (OCands xs))"
    if "a' \<in> set as" "x \<in> set (cell_refs (row_cells h a'))" for a' x
  proof -
    from Cons.prems(4) that have "m x = None \<and> (\<exists>xs. h_lookup h x = Some (OCands xs))"
      by (meson list.set_intros(2))
    then obtain xs where c: "m x = None" "h_lookup h x = Some (OCands xs)" by blast
    from c(2) Cons.prems(1) have "x \<noteq> y" by auto
    moreover from c(2) have "x < length h" by (rule h_lookup_Some_less)
    moreover from c(2) a(2) have "x \<noteq> a" by auto
    moreover from that Cons.prems(5) rc have "x \<notin> set (cell_refs cells)" by auto
    ultimately show ?thesis using c by blast
  qed
  have C2: "\<forall>a'\<in>set as. \<forall>x\<in>set (cell_refs (row_cells h2 a')). m1 x = None \<and> (\<exists>xs. h_lookup h2 x = Some (OCands xs))"
  proof (intro ballI)
    fix a' x assume a': "a' \<in> set as" and "x \<in> set (cell_refs (row_cells h2 a'))"
    with rc2 have "x \<in> set (cell_refs (row_cells h a'))" by simp
    from ref_as[OF a' this] r(9) keep2[of x]
    show "m1 x = None \<and> (\<exists>xs. h_lookup h2 x = Some (OCands xs))" by auto
  qed
  have eq2: "map (\<lambda>a. cell_refs (row_cells h2 a)) as = map (\<lambda>a. cell_refs (row_cells h a)) as"
    using rc2 by simp
  from Cons.prems(5) have "distinct (concat (map (\<lambda>a. cell_refs (row_cells h a)) as))" by simp
  then have DC2: "distinct (concat (map (\<lambda>a. cell_refs (row_cells h2 a)) as))"
    unfolding eq2 .
  from Cons.prems(2) have D2: "distinct as" by simp
  from Cons.IH[OF y2 D2 R2 C2 DC2] obtain m' h' zs where
    i: "h_copy_row_list h2 m1 y as = (Inr (), m', h')"
       "h_lookup h' y = Some (ORows ((ys @ [length h]) @ zs))" "length zs = length as"
       "\<forall>k<length as. length h2 \<le> zs ! k \<and> zs ! k < length h' \<and>
              (\<exists>cs. h_lookup h' (zs ! k) = Some (ORow cs) \<and> length cs = length (row_cells h2 (as ! k)) \<and>
                 (\<forall>j<length cs. h_cell_view h' (cs ! j) = h_cell_view h2 (row_cells h2 (as ! k) ! j)))"
       "\<forall>x\<in>set (concat (map (\<lambda>z. cell_refs (row_cells h' z)) zs)). length h2 \<le> x \<and> x < length h'"
       "distinct (concat (map (\<lambda>z. cell_refs (row_cells h' z)) zs))" "distinct zs"
       "length h2 \<le> length h'" "\<forall>a<length h2. a \<noteq> y \<longrightarrow> h' ! a = h2 ! a"
    by blast
  have run: "h_copy_row_list h m y (a # as) = (Inr (), m', h')"
    using r(1) y1 i(1) by (simp add: h2_def)
  have lens: "length h < length h'" using r(7) len2 i(8) by simp
  have new_keep: "h_lookup h' x = h_lookup h1 x" if "x < length h1" "x \<noteq> y" for x
  proof -
    from that i(9) len2 have "h' ! x = h2 ! x" by simp
    with nth2[OF that(2)] that(1) i(8) len2 show ?thesis by (simp add: h_lookup_def)
  qed
  have row0: "h_lookup h' (length h) = Some (ORow zs0)"
    using new_keep[of "length h"] r(2,7) yl by simp
  have rc0: "row_cells h' (length h) = zs0" using row0 by (rule row_cells_Some)
  have view0: "h_cell_view h' (zs0 ! j) = h_cell_view h (cells ! j)" if "j < length cells" for j
  proof -
    have "h_cell_view h' (zs0 ! j) = h_cell_view h1 (zs0 ! j)"
    proof (rule cell_view_cong, intro allI impI)
      fix x assume "zs0 ! j = HRef x"
      with that r(3) have "x \<in> set (cell_refs zs0)" by (auto intro: cell_refs_nth)
      with r(5) yl have "x < length h1" "x \<noteq> y" by auto
      then show "h_lookup h' x = h_lookup h1 x" by (rule new_keep)
    qed
    with r(4) that show ?thesis by simp
  qed
  have viewk: "h_cell_view h2 (row_cells h (as ! k) ! j) = h_cell_view h (row_cells h (as ! k) ! j)"
    if "k < length as" "j < length (row_cells h (as ! k))" for k j
  proof (rule cell_view_cong, intro allI impI)
    fix x assume "row_cells h (as ! k) ! j = HRef x"
    with that have "x \<in> set (cell_refs (row_cells h (as ! k)))" by (auto intro: cell_refs_nth)
    from ref_as[OF _ this] that(1) have "x < length h" "x \<noteq> y" by auto
    then show "h_lookup h2 x = h_lookup h x" by (rule keep2)
  qed
  have rows: "length h \<le> (length h # zs) ! k \<and> (length h # zs) ! k < length h' \<and>
              (\<exists>cs. h_lookup h' ((length h # zs) ! k) = Some (ORow cs) \<and>
                 length cs = length (row_cells h ((a # as) ! k)) \<and>
                 (\<forall>j<length cs. h_cell_view h' (cs ! j) = h_cell_view h (row_cells h ((a # as) ! k) ! j)))"
    if "k < length (a # as)" for k
  proof (cases k)
    case 0
    show ?thesis unfolding 0 using lens row0 r(3) rc view0 by simp
  next
    case (Suc l)
    with that have l: "l < length as" by simp
    from i(4) l obtain cs where
      c: "length h2 \<le> zs ! l" "zs ! l < length h'" "h_lookup h' (zs ! l) = Some (ORow cs)"
         "length cs = length (row_cells h2 (as ! l))"
         "\<forall>j<length cs. h_cell_view h' (cs ! j) = h_cell_view h2 (row_cells h2 (as ! l) ! j)"
      by blast
    have e: "row_cells h2 (as ! l) = row_cells h (as ! l)" using l by (simp add: rc2)
    have "\<forall>j<length cs. h_cell_view h' (cs ! j) = h_cell_view h (row_cells h (as ! l) ! j)"
      using c(4,5) e viewk[OF l] by simp
    with c e len2 r(7) show ?thesis unfolding Suc by simp
  qed
  have refs0: "\<forall>x\<in>set (cell_refs zs0). length h \<le> x \<and> x < length h'"
    using r(5) i(8) len2 by auto
  have disj: "set (cell_refs zs0) \<inter> set (concat (map (\<lambda>z. cell_refs (row_cells h' z)) zs)) = {}"
  proof -
    have "x < length h1" if "x \<in> set (cell_refs zs0)" for x using that r(5) by simp
    moreover have "length h1 \<le> x" if "x \<in> set (concat (map (\<lambda>z. cell_refs (row_cells h' z)) zs))" for x
      using that i(5) len2 by fastforce
    ultimately show ?thesis by fastforce
  qed
  have notin: "length h \<notin> set zs"
  proof
    assume "length h \<in> set zs"
    then obtain k where "k < length zs" "zs ! k = length h" by (auto simp: in_set_conv_nth)
    with i(3,4) len2 r(7) show False by auto
  qed
  show ?case
  proof (intro exI[of _ m'] exI[of _ h'] exI[of _ "length h # zs"] conjI)
    show "h_copy_row_list h m y (a # as) = (Inr (), m', h')" by (rule run)
    show "h_lookup h' y = Some (ORows (ys @ length h # zs))" using i(2) by simp
    show "length (length h # zs) = length (a # as)" using i(3) by simp
    show "\<forall>k<length (a # as). length h \<le> (length h # zs) ! k \<and> (length h # zs) ! k < length h' \<and>
              (\<exists>cs. h_lookup h' ((length h # zs) ! k) = Some (ORow cs) \<and>
                 length cs = length (row_cells h ((a # as) ! k)) \<and>
                 (\<forall>j<length cs. h_cell_view h' (cs ! j) = h_cell_view h (row_cells h ((a # as) ! k) ! j)))"
      using rows by blast
    show "\<forall>x\<in>set (concat (map (\<lambda>z. cell_refs (row_cells h' z)) (length h # zs))). length h \<le> x \<and> x < length h'"
    proof
      fix x assume "x \<in> set (concat (map (\<lambda>z. cell_refs (row_cells h' z)) (length h # zs)))"
      then consider "x \<in> set (cell_refs zs0)" | "x \<in> set (concat (map (\<lambda>z. cell_refs (row_cells h' z)) zs))"
        using rc0 by auto
      then show "length h \<le> x \<and> x < length h'"
      proof cases
        case 1
        with refs0 show ?thesis by blast
      next
        case 2
        with i(5) len2 r(7) show ?thesis by fastforce
      qed
    qed
    show "distinct (concat (map (\<lambda>z. cell_refs (row_cells h' z)) (length h # zs)))"
      using rc0 r(6) i(6) disj by simp
    show "distinct (length h # zs)" using notin i(7) by simp
    show "length h \<le> length h'" using lens by simp
    show "\<forall>a'<length h. a' \<noteq> y \<longrightarrow> h' ! a' = h ! a'"
    proof (intro allI impI)
      fix a' assume a': "a' < length h" "a' \<noteq> y"
      with r(7) len2 i(9) have "h' ! a' = h2 ! a'" by simp
      with nth2[OF a'(2)] r(8) a'(1) show "h' ! a' = h ! a'" by simp
    qed
  qed
qed

lemma lookup_frame:
  assumes "h_lookup h a = Some x" "length h \<le> length h'" "\<forall>a<length h. h' ! a = h ! a"
  shows "h_lookup h' a = Some x"
  using assms by (auto simp: h_lookup_def split: if_splits)

lemma cell_view_ref:
  assumes "h_cell_view h (HRef x) = Some c"
  shows "\<exists>xs. h_lookup h x = Some (OCands xs)"
  using assms by (auto simp: h_cell_view_def split: option.splits obj.splits)

lemma cell_refs_ex:
  assumes "x \<in> set (cell_refs cs)"
  shows "\<exists>j<length cs. cs ! j = HRef x"
  using assms by (auto simp: set_cell_refs in_set_conv_nth)

text \<open>
  \<^verbatim>\<open>copy.deepcopy\<close> of an unshared board: the call returns a new instance that represents
  the same value, and no object that was in the store before is changed.
\<close>

lemma refine_deepcopy:
  assumes "represents h b v"
  shows "\<exists>c h1. h_deepcopy h b = (Inr c, h1) \<and> represents h1 c v \<and> length h \<le> c \<and>
           c < length h1 \<and> (\<forall>a<length h. h1 ! a = h ! a)"
proof -
  from represents_parts(1)[OF assms] obtain ra ras where
    p: "h_lookup h b = Some (OBoard (size_attr v) (num_nums_placed v) ra)"
       "h_lookup h ra = Some (ORows ras)" "distinct ras" "length ras = length (rows v)"
    and rws: "\<forall>i<length ras. \<exists>cells. h_lookup h (ras ! i) = Some (ORow cells) \<and>
            length cells = length (rows v ! i) \<and>
            (\<forall>j<length cells. h_cell_view h (cells ! j) = Some (rows v ! i ! j))"
    by blast
  note inj = represents_parts(2)[OF assms]
  note gc = h_get_cell_parts[OF p(1) p(2)]
  define h0 where "h0 = h @ [ORows []]"
  define m0 where "m0 = (Map.empty :: memo)(ra \<mapsto> length h)"
  have len0: "length h0 = Suc (length h)" by (simp add: h0_def)
  have keep0: "h_lookup h0 x = h_lookup h x" if "x < length h" for x
    using that by (simp add: h0_def h_lookup_append)
  have y0: "h_lookup h0 (length h) = Some (ORows [])" by (simp add: h0_def h_lookup_append_new)
  have rowi: "\<exists>cells. h_lookup h (ras ! i) = Some (ORow cells) \<and> row_cells h (ras ! i) = cells \<and>
            length cells = length (rows v ! i) \<and>
            (\<forall>j<length cells. h_cell_view h (cells ! j) = Some (rows v ! i ! j))"
    if "i < length ras" for i
  proof -
    from rws that obtain cells where c: "h_lookup h (ras ! i) = Some (ORow cells)"
      "length cells = length (rows v ! i)"
      "\<forall>j<length cells. h_cell_view h (cells ! j) = Some (rows v ! i ! j)" by blast
    from row_cells_Some[OF c(1)] c show ?thesis by blast
  qed
  have refs: "\<exists>j xs. h_get_cell h b i j = Inr (HRef x) \<and> h_lookup h x = Some (OCands xs)"
    if "i < length ras" "x \<in> set (cell_refs (row_cells h (ras ! i)))" for i x
  proof -
    from rowi[OF that(1)] obtain cells where c: "h_lookup h (ras ! i) = Some (ORow cells)"
      "row_cells h (ras ! i) = cells"
      "\<forall>j<length cells. h_cell_view h (cells ! j) = Some (rows v ! i ! j)" by blast
    from that(2) c(2) cell_refs_ex obtain j where j: "j < length cells" "cells ! j = HRef x" by blast
    with c(3) have "h_cell_view h (HRef x) = Some (rows v ! i ! j)" by auto
    from cell_view_ref[OF this] obtain xs where "h_lookup h x = Some (OCands xs)" by blast
    moreover have "h_get_cell h b i j = Inr (HRef x)" using gc that(1) c(1) j by blast
    ultimately show ?thesis by blast
  qed
  have rc0: "row_cells h0 a = row_cells h a" if "a \<in> set ras" for a
  proof -
    from that obtain i where "i < length ras" "a = ras ! i" by (auto simp: in_set_conv_nth)
    with rowi[of i] have "a < length h" by (auto dest: h_lookup_Some_less)
    from keep0[OF this] show ?thesis by (simp add: row_cells_def)
  qed
  have R: "\<forall>a\<in>set ras. m0 a = None \<and> (\<exists>cells. h_lookup h0 a = Some (ORow cells))"
  proof
    fix a assume "a \<in> set ras"
    then obtain i where "i < length ras" "a = ras ! i" by (auto simp: in_set_conv_nth)
    with rowi[of i] obtain cells where c: "h_lookup h a = Some (ORow cells)" by blast
    from c p(2) have "a \<noteq> ra" by auto
    moreover from c have "a < length h" by (rule h_lookup_Some_less)
    ultimately show "m0 a = None \<and> (\<exists>cells. h_lookup h0 a = Some (ORow cells))"
      using c keep0[of a] by (simp add: m0_def)
  qed
  have C: "\<forall>a\<in>set ras. \<forall>x\<in>set (cell_refs (row_cells h0 a)). m0 x = None \<and> (\<exists>xs. h_lookup h0 x = Some (OCands xs))"
  proof (intro ballI)
    fix a x assume a: "a \<in> set ras" and "x \<in> set (cell_refs (row_cells h0 a))"
    with rc0 have x: "x \<in> set (cell_refs (row_cells h a))" by simp
    from a obtain i where i: "i < length ras" "a = ras ! i" by (auto simp: in_set_conv_nth)
    from refs[OF i(1)] x i(2) obtain xs where c: "h_lookup h x = Some (OCands xs)" by blast
    from c p(2) have "x \<noteq> ra" by auto
    moreover from c have "x < length h" by (rule h_lookup_Some_less)
    ultimately show "m0 x = None \<and> (\<exists>xs. h_lookup h0 x = Some (OCands xs))"
      using c keep0[of x] by (simp add: m0_def)
  qed
  have DCh: "distinct (concat (map (\<lambda>a. cell_refs (row_cells h a)) ras))"
  proof (rule distinct_concat_map[OF p(3)])
    fix a assume "a \<in> set ras"
    then obtain i where i: "i < length ras" "a = ras ! i" by (auto simp: in_set_conv_nth)
    from rowi[OF i(1)] obtain cells where c: "h_lookup h (ras ! i) = Some (ORow cells)"
      "row_cells h (ras ! i) = cells" by blast
    have "distinct (cell_refs cells)"
    proof (rule distinct_cell_refs)
      fix j j' x assume "j < length cells" "j' < length cells" "cells ! j = HRef x" "cells ! j' = HRef x"
      with gc i(1) c(1) have "h_get_cell h b i j = Inr (HRef x)" "h_get_cell h b i j' = Inr (HRef x)"
        by blast+
      from inj[OF this] show "j = j'" by simp
    qed
    with c(2) i(2) show "distinct (cell_refs (row_cells h a))" by simp
  next
    fix a a' assume "a \<in> set ras" "a' \<in> set ras" and ne: "a \<noteq> a'"
    then obtain i i' where i: "i < length ras" "a = ras ! i" "i' < length ras" "a' = ras ! i'"
      by (auto simp: in_set_conv_nth)
    show "set (cell_refs (row_cells h a)) \<inter> set (cell_refs (row_cells h a')) = {}"
    proof (rule ccontr)
      assume "set (cell_refs (row_cells h a)) \<inter> set (cell_refs (row_cells h a')) \<noteq> {}"
      then obtain x where x: "x \<in> set (cell_refs (row_cells h a))" "x \<in> set (cell_refs (row_cells h a'))"
        by blast
      from refs[OF i(1)] x(1) i(2) obtain j where j: "h_get_cell h b i j = Inr (HRef x)" by blast
      from refs[OF i(3)] x(2) i(4) obtain j' where j': "h_get_cell h b i' j' = Inr (HRef x)" by blast
      from inj[OF j j'] i ne show False by simp
    qed
  qed
  have eq0: "map (\<lambda>a. cell_refs (row_cells h0 a)) ras = map (\<lambda>a. cell_refs (row_cells h a)) ras"
    using rc0 by simp
  from DCh have DC: "distinct (concat (map (\<lambda>a. cell_refs (row_cells h0 a)) ras))"
    unfolding eq0 .
  from copy_row_list_fresh[OF y0 p(3) R C DC] obtain m' h' zs where
    i: "h_copy_row_list h0 m0 (length h) ras = (Inr (), m', h')"
       "h_lookup h' (length h) = Some (ORows ([] @ zs))" "length zs = length ras"
       "\<forall>k<length ras. length h0 \<le> zs ! k \<and> zs ! k < length h' \<and>
              (\<exists>cs. h_lookup h' (zs ! k) = Some (ORow cs) \<and> length cs = length (row_cells h0 (ras ! k)) \<and>
                 (\<forall>j<length cs. h_cell_view h' (cs ! j) = h_cell_view h0 (row_cells h0 (ras ! k) ! j)))"
       "\<forall>x\<in>set (concat (map (\<lambda>z. cell_refs (row_cells h' z)) zs)). length h0 \<le> x \<and> x < length h'"
       "distinct (concat (map (\<lambda>z. cell_refs (row_cells h' z)) zs))" "distinct zs"
       "length h0 \<le> length h'" "\<forall>a<length h0. a \<noteq> length h \<longrightarrow> h' ! a = h0 ! a"
    by blast
  have ral: "ra < length h" using p(2) by (rule h_lookup_Some_less)
  have run: "h_copy_rows h Map.empty ra = (Inr (length h), m', h')"
    using p(2) i(1) by (simp add: h_copy_rows_def h0_def m0_def)
  define h1 where "h1 = h' @ [OBoard (size_attr v) (num_nums_placed v) (length h)]"
  have dc: "h_deepcopy h b = (Inr (length h'), h1)"
    using p(1) run by (simp add: h_deepcopy_def h1_def)
  have keep1: "h_lookup h1 x = h_lookup h' x" if "x < length h'" for x
    using that by (simp add: h1_def h_lookup_append)
  have frame: "h1 ! a = h ! a" if "a < length h" for a
  proof -
    from that i(8) len0 have "h1 ! a = h' ! a" by (simp add: h1_def nth_append)
    also from that i(9) len0 have "\<dots> = h0 ! a" by simp
    also from that have "\<dots> = h ! a" by (simp add: h0_def nth_append)
    finally show ?thesis .
  qed
  have b1: "h_lookup h1 (length h') = Some (OBoard (size_attr v) (num_nums_placed v) (length h))"
    by (simp add: h1_def h_lookup_append_new)
  have r1: "h_lookup h1 (length h) = Some (ORows zs)"
    using keep1[of "length h"] i(2,8) len0 by simp
  have newrow: "\<exists>cs. h_lookup h1 (zs ! k) = Some (ORow cs) \<and> row_cells h' (zs ! k) = cs \<and>
      length cs = length (rows v ! k) \<and>
      (\<forall>j<length cs. h_cell_view h1 (cs ! j) = Some (rows v ! k ! j))" if "k < length zs" for k
  proof -
    from that i(3) have k: "k < length ras" by simp
    with i(4) obtain cs where c: "zs ! k < length h'" "h_lookup h' (zs ! k) = Some (ORow cs)"
      "length cs = length (row_cells h0 (ras ! k))"
      "\<forall>j<length cs. h_cell_view h' (cs ! j) = h_cell_view h0 (row_cells h0 (ras ! k) ! j)" by blast
    from rowi[OF k] obtain cells where o: "h_lookup h (ras ! k) = Some (ORow cells)"
      "row_cells h (ras ! k) = cells" "length cells = length (rows v ! k)"
      "\<forall>j<length cells. h_cell_view h (cells ! j) = Some (rows v ! k ! j)" by blast
    have e: "row_cells h0 (ras ! k) = cells" using rc0[of "ras ! k"] k o(2) by simp
    have rcs: "row_cells h' (zs ! k) = cs" using c(2) by (rule row_cells_Some)
    have "h_cell_view h1 (cs ! j) = Some (rows v ! k ! j)" if j: "j < length cs" for j
    proof -
      have "h_cell_view h1 (cs ! j) = h_cell_view h' (cs ! j)"
      proof (rule cell_view_cong, intro allI impI)
        fix x assume "cs ! j = HRef x"
        with j have "x \<in> set (cell_refs (row_cells h' (zs ! k)))" using rcs by (auto intro: cell_refs_nth)
        with \<open>k < length zs\<close> have "x \<in> set (concat (map (\<lambda>z. cell_refs (row_cells h' z)) zs))" by auto
        with i(5) have "x < length h'" by blast
        then show "h_lookup h1 x = h_lookup h' x" by (rule keep1)
      qed
      also have "\<dots> = h_cell_view h0 (cells ! j)" using c(4) j e by simp
      also have "\<dots> = h_cell_view h (cells ! j)"
      proof (rule cell_view_cong, intro allI impI)
        fix x assume "cells ! j = HRef x"
        with j c(3) e o(2) have "x \<in> set (cell_refs (row_cells h (ras ! k)))" by (auto intro: cell_refs_nth)
        from refs[OF k this] have "x < length h" by (auto dest: h_lookup_Some_less)
        then show "h_lookup h0 x = h_lookup h x" by (rule keep0)
      qed
      also have "\<dots> = Some (rows v ! k ! j)" using o(4) j c(3) e by simp
      finally show ?thesis .
    qed
    with keep1[OF c(1)] c(2) rcs c(3) e o(3) show ?thesis by simp
  qed
  note gc1 = h_get_cell_parts[OF b1 r1]
  have inj1: "i = i' \<and> j = j'"
    if "h_get_cell h1 (length h') i j = Inr (HRef a)" "h_get_cell h1 (length h') i' j' = Inr (HRef a)"
    for i i' j j' a
  proof -
    from that(1) gc1 obtain cs where c: "i < length zs" "h_lookup h1 (zs ! i) = Some (ORow cs)"
      "j < length cs" "cs ! j = HRef a" by blast
    from that(2) gc1 obtain cs' where c': "i' < length zs" "h_lookup h1 (zs ! i') = Some (ORow cs')"
      "j' < length cs'" "cs' ! j' = HRef a" by blast
    from newrow[OF c(1)] c(2) have rc: "row_cells h' (zs ! i) = cs" by auto
    from newrow[OF c'(1)] c'(2) have rc': "row_cells h' (zs ! i') = cs'" by auto
    let ?xss = "map (\<lambda>z. cell_refs (row_cells h' z)) zs"
    have "a \<in> set (?xss ! i)" using c rc by (auto intro: cell_refs_nth)
    moreover have "a \<in> set (?xss ! i')" using c' rc' by (auto intro: cell_refs_nth)
    ultimately have ii: "i = i'" using concat_index[OF i(6), of i i' a] c(1) c'(1) by simp
    with c(2) c'(2) have cc: "cs' = cs" by simp
    have "cell_refs cs \<in> set ?xss" using c(1) rc by auto
    with i(6) have "distinct (cell_refs cs)" by (auto simp: distinct_concat_iff)
    from cell_refs_index[OF this c(3) _ c(4)] c'(3,4) cc have "j = j'" by simp
    with ii show ?thesis by simp
  qed
  have rep: "represents h1 (length h') v"
    unfolding represents_def
  proof (intro conjI allI impI)
    show "\<exists>ra ras. h_lookup h1 (length h') = Some (OBoard (size_attr v) (num_nums_placed v) ra) \<and>
       h_lookup h1 ra = Some (ORows ras) \<and> distinct ras \<and> length ras = length (rows v) \<and>
       (\<forall>i<length ras. \<exists>cells. h_lookup h1 (ras ! i) = Some (ORow cells) \<and>
           length cells = length (rows v ! i) \<and>
           (\<forall>j<length cells. h_cell_view h1 (cells ! j) = Some (rows v ! i ! j)))"
    proof (intro exI[of _ "length h"] exI[of _ zs] conjI allI impI)
      show "h_lookup h1 (length h') = Some (OBoard (size_attr v) (num_nums_placed v) (length h))" by (rule b1)
      show "h_lookup h1 (length h) = Some (ORows zs)" by (rule r1)
      show "distinct zs" by (rule i(7))
      show "length zs = length (rows v)" using i(3) p(4) by simp
      fix k assume "k < length zs"
      from newrow[OF this]
      show "\<exists>cells. h_lookup h1 (zs ! k) = Some (ORow cells) \<and> length cells = length (rows v ! k) \<and>
           (\<forall>j<length cells. h_cell_view h1 (cells ! j) = Some (rows v ! k ! j))" by blast
    qed
  next
    fix i i' j j' a
    assume "h_get_cell h1 (length h') i j = Inr (HRef a)" "h_get_cell h1 (length h') i' j' = Inr (HRef a)"
    from inj1[OF this] show "i = i'" "j = j'" by simp_all
  qed
  show ?thesis
  proof (intro exI[of _ "length h'"] exI[of _ h1] conjI)
    show "h_deepcopy h b = (Inr (length h'), h1)" by (rule dc)
    show "represents h1 (length h') v" by (rule rep)
    show "length h \<le> length h'" using i(8) len0 by simp
    show "length h' < length h1" by (simp add: h1_def)
    show "\<forall>a<length h. h1 ! a = h ! a" using frame by blast
  qed
qed

text \<open>Objects allocated later do not change what an older board represents.\<close>

lemma represents_frame:
  assumes "represents h b v" "length h \<le> length h'" "\<forall>a<length h. h' ! a = h ! a"
  shows "represents h' b v"
proof -
  from represents_parts(1)[OF assms(1)] obtain ra ras where
    p: "h_lookup h b = Some (OBoard (size_attr v) (num_nums_placed v) ra)"
       "h_lookup h ra = Some (ORows ras)" "distinct ras" "length ras = length (rows v)"
    and rws: "\<forall>i<length ras. \<exists>cells. h_lookup h (ras ! i) = Some (ORow cells) \<and>
            length cells = length (rows v ! i) \<and>
            (\<forall>j<length cells. h_cell_view h (cells ! j) = Some (rows v ! i ! j))"
    by blast
  note inj = represents_parts(2)[OF assms(1)]
  note lf = lookup_frame[OF _ assms(2,3)]
  have keep: "h_lookup h' x = h_lookup h x" if "x < length h" for x
    using that assms(2,3) by (simp add: h_lookup_def)
  have rows': "\<exists>cells. h_lookup h' (ras ! i) = Some (ORow cells) \<and> h_lookup h (ras ! i) = Some (ORow cells) \<and>
            length cells = length (rows v ! i) \<and>
            (\<forall>j<length cells. h_cell_view h' (cells ! j) = Some (rows v ! i ! j))" if "i < length ras" for i
  proof -
    from rws that obtain cells where c: "h_lookup h (ras ! i) = Some (ORow cells)"
      "length cells = length (rows v ! i)"
      "\<forall>j<length cells. h_cell_view h (cells ! j) = Some (rows v ! i ! j)" by blast
    have "h_cell_view h' (cells ! j) = Some (rows v ! i ! j)" if j: "j < length cells" for j
    proof -
      have "h_cell_view h' (cells ! j) = h_cell_view h (cells ! j)"
      proof (rule cell_view_cong, intro allI impI)
        fix x assume "cells ! j = HRef x"
        with c(3) j have "h_cell_view h (HRef x) = Some (rows v ! i ! j)" by auto
        from cell_view_ref[OF this] have "x < length h" by (auto dest: h_lookup_Some_less)
        then show "h_lookup h' x = h_lookup h x" by (rule keep)
      qed
      with c(3) j show ?thesis by simp
    qed
    with lf[OF c(1)] c(1,2) show ?thesis by blast
  qed
  have gc: "h_get_cell h' b i j = Inr y \<longleftrightarrow> h_get_cell h b i j = Inr y" for i j y
    unfolding h_get_cell_parts[OF lf[OF p(1)] lf[OF p(2)]] h_get_cell_parts[OF p(1) p(2)]
    using rows'[of i] by auto
  show ?thesis
    unfolding represents_def
  proof (intro conjI allI impI)
    show "\<exists>ra ras. h_lookup h' b = Some (OBoard (size_attr v) (num_nums_placed v) ra) \<and>
       h_lookup h' ra = Some (ORows ras) \<and> distinct ras \<and> length ras = length (rows v) \<and>
       (\<forall>i<length ras. \<exists>cells. h_lookup h' (ras ! i) = Some (ORow cells) \<and>
           length cells = length (rows v ! i) \<and>
           (\<forall>j<length cells. h_cell_view h' (cells ! j) = Some (rows v ! i ! j)))"
    proof (intro exI[of _ ra] exI[of _ ras] conjI allI impI)
      show "h_lookup h' b = Some (OBoard (size_attr v) (num_nums_placed v) ra)" by (rule lf[OF p(1)])
      show "h_lookup h' ra = Some (ORows ras)" by (rule lf[OF p(2)])
      show "distinct ras" by (rule p(3))
      show "length ras = length (rows v)" by (rule p(4))
      fix i assume "i < length ras"
      from rows'[OF this]
      show "\<exists>cells. h_lookup h' (ras ! i) = Some (ORow cells) \<and> length cells = length (rows v ! i) \<and>
           (\<forall>j<length cells. h_cell_view h' (cells ! j) = Some (rows v ! i ! j))" by blast
    qed
  next
    fix i i' j j' a
    assume "h_get_cell h' b i j = Inr (HRef a)" "h_get_cell h' b i' j' = Inr (HRef a)"
    then have "h_get_cell h b i j = Inr (HRef a)" "h_get_cell h b i' j' = Inr (HRef a)"
      by (simp_all add: gc)
    from inj[OF this] show "i = i'" "j = j'" by simp_all
  qed
qed

text \<open>The tests and the scan read the same from the store and from the value.\<close>

lemma refine_goal_test:
  assumes "represents h b v"
  shows "h_goal_test h b = Inr (goal_test v)"
  using represents_parts(1)[OF assms] by (auto simp: h_goal_test_def goal_test_def)

lemma falsy_view:
  assumes "h_cell_view h x = Some c"
  shows "h_falsy h x = Inr (falsy c)"
  using assms by (auto simp: h_cell_view_def h_falsy_def split: hcell.splits option.splits obj.splits)

lemma any_falsy_view:
  assumes "list_all2 (\<lambda>x c. h_cell_view h x = Some c) cells cs"
  shows "h_any_falsy h cells = Inr (list_ex falsy cs)"
  using assms by (induction rule: list_all2_induct) (simp_all add: falsy_view)

lemma any_falsy_rows_view:
  assumes "list_all2 (\<lambda>a cs. \<exists>cells. h_lookup h a = Some (ORow cells) \<and>
             list_all2 (\<lambda>x c. h_cell_view h x = Some c) cells cs) ras rs"
  shows "h_any_falsy_rows h ras = Inr (list_ex (list_ex falsy) rs)"
  using assms by (induction rule: list_all2_induct) (auto simp: any_falsy_view)

lemma represents_all2:
  assumes "represents h b v"
  shows "\<exists>ras. h_rows h b = Inr ras \<and>
     list_all2 (\<lambda>a cs. \<exists>cells. h_lookup h a = Some (ORow cells) \<and>
             list_all2 (\<lambda>x c. h_cell_view h x = Some c) cells cs) ras (rows v)"
proof -
  from represents_parts(1)[OF assms] obtain ra ras where
    p: "h_lookup h b = Some (OBoard (size_attr v) (num_nums_placed v) ra)"
       "h_lookup h ra = Some (ORows ras)" "length ras = length (rows v)"
    and rws: "\<forall>i<length ras. \<exists>cells. h_lookup h (ras ! i) = Some (ORow cells) \<and>
            length cells = length (rows v ! i) \<and>
            (\<forall>j<length cells. h_cell_view h (cells ! j) = Some (rows v ! i ! j))"
    by blast
  have "h_rows h b = Inr ras" using p by (simp add: h_rows_def)
  moreover have "list_all2 (\<lambda>a cs. \<exists>cells. h_lookup h a = Some (ORow cells) \<and>
             list_all2 (\<lambda>x c. h_cell_view h x = Some c) cells cs) ras (rows v)"
    unfolding list_all2_conv_all_nth[of _ ras] using p(3) rws
    by (auto simp: list_all2_conv_all_nth)
  ultimately show ?thesis by blast
qed

lemma refine_failure_test:
  assumes "represents h b v"
  shows "h_failure_test h b = Inr (failure_test v)"
  using represents_all2[OF assms]
  by (auto simp: h_failure_test_def failure_test_def any_falsy_rows_view)

lemma refine_mcc_scan:
  assumes "represents h b v"
  shows "h_mcc_scan h b ps s = mcc_scan (rows v) ps s"
proof (induction ps arbitrary: s)
  case Nil
  show ?case by simp
next
  case (Cons p ps)
  obtain i j where p: "p = (i, j)" by (cases p)
  obtain mini row col where s: "s = (mini, row, col)" by (cases s)
  show ?case
  proof (cases "get_cell (rows v) i j")
    case (Inl e)
    with represents_get_cell[OF assms, of i j] show ?thesis by (simp add: p s)
  next
    case (Inr x)
    with represents_get_cell[OF assms, of i j] obtain y where
      y: "h_get_cell h b i j = Inr y" "h_cell_view h y = Some x" by auto
    show ?thesis
    proof (cases y)
      case (HVal n)
      with y(2) have "x = Val n" by (simp add: h_cell_view_def)
      with Inr y(1) HVal Cons.IH show ?thesis by (simp add: p s)
    next
      case (HRef a)
      with y(2) obtain xs where "h_lookup h a = Some (OCands xs)" "x = Cands xs"
        by (auto simp: h_cell_view_def split: option.splits obj.splits)
      with Inr y(1) HRef Cons.IH show ?thesis by (simp add: p s)
    qed
  qed
qed

lemma refine_find_most_constrained_cell:
  assumes "represents h b v"
  shows "h_find_most_constrained_cell h b = find_most_constrained_cell v"
  using represents_parts(1)[OF assms]
  by (auto simp: h_find_most_constrained_cell_def find_most_constrained_cell_def
      refine_mcc_scan[OF assms])

lemma same_below_nth:
  assumes "same_below n h h'" "a < n" "a < length h"
  shows "h' ! a = h ! a"
proof -
  from assms(1) have "length h \<le> length h'" "take n h' = take n h" by (simp_all add: same_below_def)
  with assms(2,3) show ?thesis by (metis nth_take)
qed

lemma same_below_mono:
  assumes "same_below n h h'" "m \<le> n"
  shows "same_below m h h'"
proof -
  from assms(1) have l: "length h \<le> length h'" and t: "take n h' = take n h" by (simp_all add: same_below_def)
  from assms(2) have "take m h' = take m (take n h')" by (simp add: min_def)
  also have "\<dots> = take m (take n h)" by (simp only: t)
  also from assms(2) have "\<dots> = take m h" by (simp add: min_def)
  finally show ?thesis using l by (simp add: same_below_def)
qed

lemma represents_same_below:
  assumes "represents h b v" "same_below (length h) h h'"
  shows "represents h' b v"
proof (rule represents_frame[OF assms(1)])
  from assms(2) show "length h \<le> length h'" by (simp add: same_below_def)
  from same_below_nth[OF assms(2)] show "\<forall>a<length h. h' ! a = h ! a" by simp
qed

lemma represents_all_same_below:
  assumes "list_all2 (represents h) stk vs" "same_below (length h) h h'"
  shows "list_all2 (represents h') stk vs"
  using assms(1) by (rule list_all2_mono) (rule represents_same_below[OF _ assms(2)])

text \<open>
  The loop over the possibilities: with a step budget beyond the number of items left,
  the store layer pushes addresses of boards that represent the boards the value layer
  pushes, and raises where the value layer raises.
\<close>

lemma refine_for_possibilities:
  assumes "represents h cur v" "list_all2 (represents h) stk vs"
    "h_lookup h pa = Some (OCands xs)" "idx \<le> length xs" "length xs - idx < fuel"
  shows "case for_possibilities v row col (drop idx xs) vs of
            Inl e \<Rightarrow> fst (h_for_possibilities fuel h cur row col pa idx stk) = Inl e
          | Inr vs' \<Rightarrow> \<exists>stk' h'. h_for_possibilities fuel h cur row col pa idx stk = (Inr stk', h') \<and>
               list_all2 (represents h') stk' vs' \<and> same_below (length h) h h'"
  using assms
proof (induction fuel arbitrary: h idx stk vs)
  case 0
  then show ?case by simp
next
  case (Suc fuel)
  show ?case
  proof (cases "idx < length xs")
    case False
    with Suc.prems(4) have "drop idx xs = []" by simp
    with False Suc.prems(2,3) show ?thesis by (simp add: same_below_refl)
  next
    case True
    then have dr: "drop idx xs = xs ! idx # drop (Suc idx) xs" by (simp add: Cons_nth_drop_Suc)
    from refine_deepcopy[OF Suc.prems(1)] obtain c h1 where
      d: "h_deepcopy h cur = (Inr c, h1)" "represents h1 c v" "length h \<le> c" by blast
    from frame_deepcopy_fresh[OF d(1)] have
      f1: "closed_from (length h) h1" "same_below (length h) h h1" by simp_all
    show ?thesis
    proof (cases "update v row col (xs ! idx)")
      case (Inl e)
      with refine_update[OF d(2), of row col "xs ! idx"]
      have "fst (h_update h1 c row col (xs ! idx)) = Inl e" by simp
      then obtain h2 where "h_update h1 c row col (xs ! idx) = (Inl e, h2)"
        by (cases "h_update h1 c row col (xs ! idx)") simp
      with Inl True Suc.prems(3) d(1) show ?thesis by (simp add: dr deepcopy_def)
    next
      case (Inr v')
      with refine_update[OF d(2), of row col "xs ! idx"] obtain h2 where
        u: "h_update h1 c row col (xs ! idx) = (Inr (), h2)" "represents h2 c v'" by auto
      from frame_update[OF f1(1) d(3) u(1)] have "same_below (length h) h1 h2" by simp
      with f1(2) have sb: "same_below (length h) h h2" by (rule same_below_trans)
      then have len: "length h \<le> length h2" by (simp add: same_below_def)
      have p1: "represents h2 cur v" using Suc.prems(1) sb by (rule represents_same_below)
      have p2: "list_all2 (represents h2) (push c stk) (push v' vs)"
        using represents_all_same_below[OF Suc.prems(2) sb] u(2) by (simp add: push_def)
      have p3: "h_lookup h2 pa = Some (OCands xs)" using sb Suc.prems(3) by (rule same_below_lookup)
      have p4: "Suc idx \<le> length xs" using True by simp
      have p5: "length xs - Suc idx < fuel" using Suc.prems(5) True by simp
      have run: "h_for_possibilities (Suc fuel) h cur row col pa idx stk =
                 h_for_possibilities fuel h2 cur row col pa (Suc idx) (push c stk)"
        using True Suc.prems(3) d(1) u(1) by simp
      have val: "for_possibilities v row col (drop idx xs) vs =
                 for_possibilities v row col (drop (Suc idx) xs) (push v' vs)"
        using Inr by (simp add: dr deepcopy_def)
      show ?thesis
      proof (cases "for_possibilities v row col (drop (Suc idx) xs) (push v' vs)")
        case (Inl e)
        with Suc.IH[OF p1 p2 p3 p4 p5] show ?thesis unfolding run val by simp
      next
        case r: (Inr vs')
        with Suc.IH[OF p1 p2 p3 p4 p5] obtain stk' h' where
          i: "h_for_possibilities fuel h2 cur row col pa (Suc idx) (push c stk) = (Inr stk', h')"
             "list_all2 (represents h') stk' vs'" "same_below (length h2) h2 h'" by auto
        from same_below_mono[OF i(3) len] sb have "same_below (length h) h h'"
          by (rule same_below_trans[rotated])
        with i(1,2) r show ?thesis unfolding run val by simp
      qed
    qed
  qed
qed

end
